theory Spec2Isabelle
  imports Complex_Main
begin

section \<open>Floating-point values and NumPy primitives\<close>

text \<open>
  The arrays of the program hold IEEE doubles. A double is modelled as an exact real
  number or one of the three special values; rounding, overflow of finite arithmetic
  and the sign of zero are not modelled. Division by zero does not raise in NumPy: it
  yields an infinity or NaN, as written out in \<open>fl_div\<close>.
\<close>

datatype float64 = Fin real | PInf | NInf | NaN

datatype error = ValueError | NotImplementedError | IndexError | KeyError

fun fl_neg :: "float64 \<Rightarrow> float64" where
  "fl_neg (Fin x) = Fin (- x)"
| "fl_neg PInf = NInf"
| "fl_neg NInf = PInf"
| "fl_neg NaN = NaN"

fun fl_add :: "float64 \<Rightarrow> float64 \<Rightarrow> float64" where
  "fl_add NaN y = NaN"
| "fl_add x NaN = NaN"
| "fl_add (Fin x) (Fin y) = Fin (x + y)"
| "fl_add PInf NInf = NaN"
| "fl_add NInf PInf = NaN"
| "fl_add PInf y = PInf"
| "fl_add x PInf = PInf"
| "fl_add NInf y = NInf"
| "fl_add x NInf = NInf"

definition fl_sub :: "float64 \<Rightarrow> float64 \<Rightarrow> float64" where
  "fl_sub x y = fl_add x (fl_neg y)"

text \<open>The sign of an infinite product or quotient: \<open>True\<close> is positive.\<close>

definition fl_inf :: "bool \<Rightarrow> float64" where
  "fl_inf pos = (if pos then PInf else NInf)"

fun fl_mul :: "float64 \<Rightarrow> float64 \<Rightarrow> float64" where
  "fl_mul NaN y = NaN"
| "fl_mul x NaN = NaN"
| "fl_mul (Fin x) (Fin y) = Fin (x * y)"
| "fl_mul (Fin x) PInf = (if x = 0 then NaN else fl_inf (0 < x))"
| "fl_mul (Fin x) NInf = (if x = 0 then NaN else fl_inf (x < 0))"
| "fl_mul PInf (Fin y) = (if y = 0 then NaN else fl_inf (0 < y))"
| "fl_mul NInf (Fin y) = (if y = 0 then NaN else fl_inf (y < 0))"
| "fl_mul PInf PInf = PInf"
| "fl_mul NInf NInf = PInf"
| "fl_mul PInf NInf = NInf"
| "fl_mul NInf PInf = NInf"

fun fl_div :: "float64 \<Rightarrow> float64 \<Rightarrow> float64" where
  "fl_div NaN y = NaN"
| "fl_div x NaN = NaN"
| "fl_div (Fin x) (Fin y) =
     (if y \<noteq> 0 then Fin (x / y) else if x = 0 then NaN else fl_inf (0 < x))"
| "fl_div (Fin x) PInf = Fin 0"
| "fl_div (Fin x) NInf = Fin 0"
| "fl_div PInf (Fin y) = fl_inf (0 \<le> y)"
| "fl_div NInf (Fin y) = fl_inf (y < 0)"
| "fl_div PInf y = NaN"
| "fl_div NInf y = NaN"

fun fl_abs :: "float64 \<Rightarrow> float64" where
  "fl_abs (Fin x) = Fin \<bar>x\<bar>"
| "fl_abs PInf = PInf"
| "fl_abs NInf = PInf"
| "fl_abs NaN = NaN"

text \<open>
  The square root of a real number is no computable function; it is kept behind a name
  of its own, without code equation, so that everything else evaluates.
\<close>

definition real_sqrt :: "real \<Rightarrow> real" where
  "real_sqrt x = sqrt x"

declare real_sqrt_def [code del]

fun fl_sqrt :: "float64 \<Rightarrow> float64" where
  "fl_sqrt (Fin x) = (if x < 0 then NaN else Fin (real_sqrt x))"
| "fl_sqrt PInf = PInf"
| "fl_sqrt NInf = NaN"
| "fl_sqrt NaN = NaN"

text \<open>Comparisons: every comparison with NaN is false.\<close>

fun fl_less :: "float64 \<Rightarrow> float64 \<Rightarrow> bool" where
  "fl_less NaN y = False"
| "fl_less x NaN = False"
| "fl_less (Fin x) (Fin y) = (x < y)"
| "fl_less x NInf = False"
| "fl_less PInf y = False"
| "fl_less NInf y = True"
| "fl_less x PInf = True"

fun fl_le :: "float64 \<Rightarrow> float64 \<Rightarrow> bool" where
  "fl_le NaN y = False"
| "fl_le x NaN = False"
| "fl_le x y = (x = y \<or> fl_less x y)"

text \<open>\<open>np.minimum\<close>, \<open>np.maximum\<close> and the reductions \<open>min()\<close>, \<open>max()\<close> propagate NaN.\<close>

fun fl_min :: "float64 \<Rightarrow> float64 \<Rightarrow> float64" where
  "fl_min NaN y = NaN"
| "fl_min x NaN = NaN"
| "fl_min x y = (if fl_less y x then y else x)"

fun fl_max :: "float64 \<Rightarrow> float64 \<Rightarrow> float64" where
  "fl_max NaN y = NaN"
| "fl_max x NaN = NaN"
| "fl_max x y = (if fl_less x y then y else x)"

fun np_amin :: "float64 list \<Rightarrow> error + float64" where
  "np_amin [] = Inl ValueError"
| "np_amin (x # xs) = Inr (foldl fl_min x xs)"

fun np_amax :: "float64 list \<Rightarrow> error + float64" where
  "np_amax [] = Inl ValueError"
| "np_amax (x # xs) = Inr (foldl fl_max x xs)"

definition np_sum :: "float64 list \<Rightarrow> float64" where
  "np_sum xs = foldl fl_add (Fin 0) xs"

text \<open>\<open>np.nansum\<close>: the sum with every NaN entry replaced by zero.\<close>

definition np_nansum :: "float64 list \<Rightarrow> float64" where
  "np_nansum xs = np_sum (map (\<lambda>x. if x = NaN then Fin 0 else x) xs)"

text \<open>Elementwise operations on two arrays of the same size.\<close>

definition np_sub :: "float64 list \<Rightarrow> float64 list \<Rightarrow> float64 list" where
  "np_sub a b = map2 fl_sub a b"

definition np_add :: "float64 list \<Rightarrow> float64 list \<Rightarrow> float64 list" where
  "np_add a b = map2 fl_add a b"

definition np_divide :: "float64 list \<Rightarrow> float64 list \<Rightarrow> float64 list" where
  "np_divide a b = map2 fl_div a b"

definition np_minimum :: "float64 list \<Rightarrow> float64 list \<Rightarrow> float64 list" where
  "np_minimum a b = map2 fl_min a b"

definition np_maximum :: "float64 list \<Rightarrow> float64 list \<Rightarrow> float64 list" where
  "np_maximum a b = map2 fl_max a b"

definition np_abs :: "float64 list \<Rightarrow> float64 list" where
  "np_abs a = map fl_abs a"

text \<open>\<open>x ** 2\<close> on an array squares each entry.\<close>

definition np_square :: "float64 list \<Rightarrow> float64 list" where
  "np_square a = map (\<lambda>x. fl_mul x x) a"

text \<open>\<open>np.linalg.norm\<close> of a vector: the square root of the sum of the squares.\<close>

definition np_linalg_norm :: "float64 list \<Rightarrow> float64" where
  "np_linalg_norm a = fl_sqrt (np_sum (np_square a))"

text \<open>
  \<open>np.roll(x, shift)\<close> on a vector: the entry at index \<open>k\<close> moves to index
  \<open>(k + shift) mod n\<close>; the last \<open>shift mod n\<close> entries come first.
\<close>

definition np_roll :: "'a list \<Rightarrow> nat \<Rightarrow> 'a list" where
  "np_roll xs shift =
     (if xs = [] then []
      else drop (length xs - shift mod length xs) xs @ take (length xs - shift mod length xs) xs)"

section \<open>The histogram distance module (hdist.py)\<close>

text \<open>
  An array handed to \<open>hdist.distance\<close>: its number of dimensions and its entries in
  row-major order; \<open>size\<close> is the number of entries.
\<close>

record harray =
  ndim :: nat
  elems :: "float64 list"

definition asize :: "harray \<Rightarrow> nat" where
  "asize a = length (elems a)"

definition metrics :: "string \<rightharpoonup> string list" where
  "metrics = [''L1'' \<mapsto> [''L1'', ''manhattan'', ''man''],
              ''L2'' \<mapsto> [''L2'', ''euclidean'', ''euc''],
              ''CHI2'' \<mapsto> [''CHI2'', ''chi2''],
              ''CEMD'' \<mapsto> [''CEMD'', ''cemd''],
              ''jaccard'' \<mapsto> [''jaccard'']]"

text \<open>\<open>metric in metrics[key]\<close>, for the five keys the dictionary holds.\<close>

definition metric_in :: "string \<Rightarrow> string \<Rightarrow> bool" where
  "metric_in metric key = (case metrics key of None \<Rightarrow> False | Some names \<Rightarrow> metric \<in> set names)"

text \<open>Sequencing of fallible steps: the first error raised ends the computation.\<close>

definition ebind :: "error + 'a \<Rightarrow> ('a \<Rightarrow> error + 'b) \<Rightarrow> error + 'b" where
  "ebind m f = (case m of Inl e \<Rightarrow> Inl e | Inr x \<Rightarrow> f x)"

definition hdist_normalized :: "float64 list \<Rightarrow> error + float64 list" where
  "hdist_normalized a =
     ebind (np_amin a) (\<lambda>lo. ebind (np_amax a) (\<lambda>hi.
       Inr (map (\<lambda>x. fl_div (fl_sub x lo) (fl_sub hi lo)) a)))"

definition metric_value :: "string \<Rightarrow> float64 list \<Rightarrow> float64 list \<Rightarrow> error + float64" where
  "metric_value metric a b =
     (if metric_in metric ''L1'' then Inr (np_sum (np_abs (np_sub a b)))
      else if metric_in metric ''L2'' then Inr (np_linalg_norm (np_sub a b))
      else if metric_in metric ''CHI2'' then
        Inr (np_nansum (np_divide (np_square (np_sub a b)) (np_add a b)))
      else if metric_in metric ''CEMD'' then Inl NotImplementedError
      else if metric_in metric ''jaccard'' then
        Inr (fl_sub (Fin 1) (fl_div (np_sum (np_minimum a b)) (np_sum (np_maximum a b))))
      else Inl ValueError)"

definition hdist_distance :: "harray \<Rightarrow> harray \<Rightarrow> string \<Rightarrow> bool \<Rightarrow> error + float64" where
  "hdist_distance a b metric normalized =
     (if ndim a > 1 \<or> ndim b > 1 then Inl ValueError
      else if asize a = 0 \<or> asize b = 0 then Inl ValueError
      else if asize a \<noteq> asize b then Inl ValueError
      else if normalized then
        ebind (hdist_normalized (elems a)) (\<lambda>a'.
        ebind (hdist_normalized (elems b)) (\<lambda>b'.
          metric_value metric a' b'))
      else metric_value metric (elems a) (elems b))"

section \<open>Python loops, dictionaries and permutations\<close>

text \<open>A \<open>for\<close> loop over a list that updates a state and may raise.\<close>

primrec for_loop :: "'i list \<Rightarrow> ('i \<Rightarrow> 's \<Rightarrow> error + 's) \<Rightarrow> 's \<Rightarrow> error + 's" where
  "for_loop [] body s = Inr s"
| "for_loop (x # xs) body s = ebind (body x s) (for_loop xs body)"

text \<open>A loop that stores one fallible result per index.\<close>

primrec emap :: "('a \<Rightarrow> error + 'b) \<Rightarrow> 'a list \<Rightarrow> error + 'b list" where
  "emap f [] = Inr []"
| "emap f (x # xs) = ebind (f x) (\<lambda>y. ebind (emap f xs) (\<lambda>ys. Inr (y # ys)))"

text \<open>
  A dictionary keyed by doubles, as the list of its entries in insertion order. Storing
  under a key that is present replaces the value and keeps the entry's place. NaN is
  equal to no key, itself included, and every NaN the program computes is a new object,
  so a NaN key always makes a new entry.
\<close>

definition dict_set :: "(float64 \<times> 'v) list \<Rightarrow> float64 \<Rightarrow> 'v \<Rightarrow> (float64 \<times> 'v) list" where
  "dict_set d k v =
     (if k \<noteq> NaN \<and> k \<in> fst ` set d
      then map (\<lambda>kv. if fst kv = k then (k, v) else kv) d
      else d @ [(k, v)])"

text \<open>
  \<open>min(d)\<close> over the keys of a dictionary followed by \<open>d[min(d)]\<close>: Python keeps the
  first key and replaces it by a later one only when the later one is strictly smaller;
  the lookup then finds the entry of that very key object. The model returns the entry.
  \<open>min\<close> of an empty dictionary raises \<open>ValueError\<close>.
\<close>

fun py_min_entry :: "(float64 \<times> 'v) list \<Rightarrow> error + (float64 \<times> 'v)" where
  "py_min_entry [] = Inl ValueError"
| "py_min_entry (e # es) =
     Inr (foldl (\<lambda>best x. if fl_less (fst x) (fst best) then x else best) e es)"

text \<open>
  \<open>itertools.permutations(pool, r)\<close>: the \<open>r\<close>-length arrangements of the pool, in the
  order of the pool's positions (lexicographic when the pool is sorted). The pool of the
  program is \<open>range(N)\<close>, whose entries are distinct.
\<close>

primrec permutations_r :: "nat \<Rightarrow> 'a list \<Rightarrow> 'a list list" where
  "permutations_r 0 pool = [[]]"
| "permutations_r (Suc r) pool =
     concat (map (\<lambda>y. map ((#) y) (permutations_r r (remove1 y pool))) pool)"

definition permutations :: "'a list \<Rightarrow> 'a list list" where
  "permutations pool = permutations_r (length pool) pool"

section \<open>The FHD descriptor and its distance (fhd.py)\<close>

text \<open>
  A three-dimensional array: its shape and its cells, \<open>cells ! i ! j\<close> being the vector
  at \<open>[i, j]\<close>. An array made by \<open>np.ndarray(shape)\<close> holds whatever the memory held.
\<close>

record ndarray3 =
  dim0 :: nat
  dim1 :: nat
  dim2 :: nat
  cells :: "float64 list list list"

record FHD =
  N :: nat
  num_dirs :: nat
  fhistograms :: ndarray3
  shape_force :: float64
  spatial_force :: float64

definition FHD_init :: "ndarray3 \<Rightarrow> float64 \<Rightarrow> float64 \<Rightarrow> FHD" where
  "FHD_init fh sf spf =
     \<lparr>N = dim0 fh, num_dirs = dim2 fh, fhistograms = fh, shape_force = sf, spatial_force = spf\<rparr>"

text \<open>\<open>A[i, j]\<close>: the vector at row \<open>i\<close>, column \<open>j\<close> of the underlying array.\<close>

definition FHD_getitem :: "FHD \<Rightarrow> nat \<Rightarrow> nat \<Rightarrow> error + harray" where
  "FHD_getitem A i j =
     (if i < dim0 (fhistograms A) \<and> j < dim1 (fhistograms A)
      then Inr \<lparr>ndim = 1, elems = cells (fhistograms A) ! i ! j\<rparr>
      else Inl IndexError)"

text \<open>The descriptors the constructors of the class build: an \<open>N \<times> N \<times> num_dirs\<close> array.\<close>

definition FHD_wf :: "FHD \<Rightarrow> bool" where
  "FHD_wf A =
     (dim0 (fhistograms A) = N A \<and> dim1 (fhistograms A) = N A \<and>
      dim2 (fhistograms A) = num_dirs A \<and>
      length (cells (fhistograms A)) = N A \<and>
      list_all (\<lambda>row. length row = N A \<and> list_all (\<lambda>h. length h = num_dirs A) row)
        (cells (fhistograms A)))"

definition matchings :: "string list" where
  "matchings = [''default'', ''greedy'', ''optimal'']"

text \<open>\<open>hdist.distance(A[i, j], B[k, l], metric)\<close>.\<close>

definition hist_distance :: "FHD \<Rightarrow> FHD \<Rightarrow> string \<Rightarrow> nat \<Rightarrow> nat \<Rightarrow> nat \<Rightarrow> nat \<Rightarrow> error + float64" where
  "hist_distance A B metric i j k l =
     ebind (FHD_getitem A i j) (\<lambda>a. ebind (FHD_getitem B k l) (\<lambda>b.
       hdist_distance a b metric True))"

text \<open>\<open>hdist.distance(A[i, j], np.roll(B[k, l], pivot), metric)\<close>.\<close>

definition hist_distance_rolled :: "FHD \<Rightarrow> FHD \<Rightarrow> string \<Rightarrow> nat \<Rightarrow> nat \<Rightarrow> nat \<Rightarrow> nat \<Rightarrow> nat \<Rightarrow> error + float64" where
  "hist_distance_rolled A B metric i j k l pivot =
     ebind (FHD_getitem A i j) (\<lambda>a. ebind (FHD_getitem B k l) (\<lambda>b.
       hdist_distance a (b\<lparr>elems := np_roll (elems b) pivot\<rparr>) metric True))"

text \<open>\<open>d[k]\<close> on a dictionary of the matching.\<close>

definition dict_get :: "(nat \<rightharpoonup> nat) \<Rightarrow> nat \<Rightarrow> error + nat" where
  "dict_get d k = (case d k of None \<Rightarrow> Inl KeyError | Some v \<Rightarrow> Inr v)"

text \<open>The identity matching: both loops of the \<open>default\<close> branch.\<close>

definition default_distances :: "FHD \<Rightarrow> FHD \<Rightarrow> string \<Rightarrow> nat \<Rightarrow> error + (float64 \<times> float64)" where
  "default_distances A B metric n =
     for_loop [0..<n] (\<lambda>i (shape_distance, spatial_distance).
       ebind (hist_distance A B metric i i i i) (\<lambda>d.
       ebind (for_loop [i + 1..<n] (\<lambda>j sp.
                ebind (hist_distance A B metric i j i j) (\<lambda>d'. Inr (fl_add sp d')))
              spatial_distance) (\<lambda>sp.
         Inr (fl_add shape_distance d, sp))))
     (Fin 0, Fin 0)"

text \<open>
  The spatial loop of the \<open>greedy\<close> branch and of the \<open>optimal\<close> branch (the two are the
  same text): the body for one pair, then the two nested loops.
\<close>

definition spatial_step :: "FHD \<Rightarrow> FHD \<Rightarrow> string \<Rightarrow> (nat \<rightharpoonup> nat) \<Rightarrow> nat \<Rightarrow> nat \<Rightarrow> float64 \<Rightarrow> error + float64" where
  "spatial_step A B metric matching i j spatial_distance =
     ebind (dict_get matching i) (\<lambda>mi. ebind (dict_get matching j) (\<lambda>mj.
       if mi \<le> mj then
         ebind (hist_distance A B metric i j mi mj) (\<lambda>d. Inr (fl_add spatial_distance d))
       else
         ebind (hist_distance_rolled A B metric i j mj mi (num_dirs B div 2)) (\<lambda>d.
           Inr (fl_add spatial_distance d))))"

definition matched_spatial_distance :: "FHD \<Rightarrow> FHD \<Rightarrow> string \<Rightarrow> (nat \<rightharpoonup> nat) \<Rightarrow> nat \<Rightarrow> error + float64" where
  "matched_spatial_distance A B metric matching n =
     for_loop [0..<n] (\<lambda>i. for_loop [i + 1..<n] (spatial_step A B metric matching i)) (Fin 0)"

text \<open>One round of the greedy loop: the state is the distance, the matching and the choices.\<close>

definition greedy_step :: "FHD \<Rightarrow> FHD \<Rightarrow> string \<Rightarrow> nat \<Rightarrow> float64 \<times> (nat \<rightharpoonup> nat) \<times> nat list \<Rightarrow> error + (float64 \<times> (nat \<rightharpoonup> nat) \<times> nat list)" where
  "greedy_step A B metric i st =
     (case st of (distance, matching, choices) \<Rightarrow>
       ebind (for_loop choices (\<lambda>j dists.
                ebind (hist_distance A B metric i i j j) (\<lambda>d. Inr (dict_set dists d j))) [])
         (\<lambda>dists. ebind (py_min_entry dists) (\<lambda>(min_dist, jmin).
            Inr (fl_add distance min_dist, matching(i \<mapsto> jmin), remove1 jmin choices))))"

definition greedy_shape_matching :: "FHD \<Rightarrow> FHD \<Rightarrow> string \<Rightarrow> error + (float64 \<times> (nat \<rightharpoonup> nat))" where
  "greedy_shape_matching A B metric =
     (if N A \<noteq> N B then Inl ValueError
      else ebind (for_loop [0..<N A] (greedy_step A B metric) (Fin 0, Map.empty, [0..<N A]))
             (\<lambda>(distance, matching, choices). Inr (distance, matching)))"

text \<open>The sum of one permutation: \<open>distance += distances[i, j]\<close> over \<open>enumerate(permutation)\<close>.\<close>

definition permutation_distance :: "float64 list list \<Rightarrow> nat list \<Rightarrow> float64" where
  "permutation_distance distances permutation =
     foldl (\<lambda>distance (i, j). fl_add distance (distances ! i ! j)) (Fin 0)
       (enumerate 0 permutation)"

definition optimal_shape_matching :: "FHD \<Rightarrow> FHD \<Rightarrow> string \<Rightarrow> error + (float64 \<times> (nat \<rightharpoonup> nat))" where
  "optimal_shape_matching A B metric =
     (if N A \<noteq> N B then Inl ValueError
      else
        ebind (emap (\<lambda>i. emap (\<lambda>j. hist_distance A B metric i i j j) [0..<N A]) [0..<N A])
          (\<lambda>distances.
        ebind (py_min_entry
                 (foldl (\<lambda>ms permutation.
                      dict_set ms (permutation_distance distances permutation) permutation)
                    [] (permutations [0..<N A])))
          (\<lambda>(min_distance, best_permutation).
             Inr (min_distance,
                  foldl (\<lambda>m i. m(i \<mapsto> best_permutation ! i)) Map.empty [0..<N A]))))"

text \<open>
  The first lines of the \<open>greedy\<close> branch: both greedy matchings are computed and the
  one with the lower shape distance is kept, as it is, for the spatial loop.
\<close>

definition greedy_retained :: "FHD \<Rightarrow> FHD \<Rightarrow> string \<Rightarrow> error + (float64 \<times> (nat \<rightharpoonup> nat))" where
  "greedy_retained A B metric =
     ebind (greedy_shape_matching A B metric) (\<lambda>matching_AB.
     ebind (greedy_shape_matching B A metric) (\<lambda>matching_BA.
       Inr (if fl_le (fst matching_AB) (fst matching_BA) then matching_AB else matching_BA)))"

text \<open>The three branches of \<open>distance\<close>: the shape distance and the spatial distance.\<close>

definition strategy_distances :: "FHD \<Rightarrow> FHD \<Rightarrow> string \<Rightarrow> string \<Rightarrow> error + (float64 \<times> float64)" where
  "strategy_distances A B metric matching =
     (if matching = ''default'' then default_distances A B metric (N A)
      else if matching = ''greedy'' then
        ebind (greedy_retained A B metric) (\<lambda>(shape_distance, m).
        ebind (matched_spatial_distance A B metric m (N A)) (\<lambda>spatial_distance.
          Inr (shape_distance, spatial_distance)))
      else if matching = ''optimal'' then
        ebind (optimal_shape_matching A B metric) (\<lambda>(shape_distance, m).
        ebind (matched_spatial_distance A B metric m (N A)) (\<lambda>spatial_distance.
          Inr (shape_distance, spatial_distance)))
      else Inl ValueError)"

definition fhd_distance :: "FHD \<Rightarrow> FHD \<Rightarrow> string \<Rightarrow> string \<Rightarrow> float64 option \<Rightarrow> error + float64" where
  "fhd_distance A B metric matching alpha =
     (if N A \<noteq> N B then Inl ValueError
      else
        ebind (case alpha of
                 None \<Rightarrow> Inr (fl_sub (Fin 1) (fl_div (Fin 2) (Fin (real (N A + 1)))))
               | Some al \<Rightarrow>
                   if \<not> (fl_le (Fin 0) al \<and> fl_le al (Fin 1)) then Inl ValueError else Inr al)
          (\<lambda>al.
             if matching \<notin> set matchings then Inl ValueError
             else ebind (strategy_distances A B metric matching) (\<lambda>(shape_distance, spatial_distance).
               Inr (fl_add (fl_mul al shape_distance)
                           (fl_mul (fl_sub (Fin 1) al) spatial_distance)))))"

section \<open>Serialisation of a descriptor (FHD.dump, FHD.load)\<close>

text \<open>
  \<open>np.triu_indices(n)\<close>: the index pairs of the upper triangle, row by row.
\<close>

definition triu_indices :: "nat \<Rightarrow> (nat \<times> nat) list" where
  "triu_indices n = concat (map (\<lambda>i. map (Pair i) [i..<n]) [0..<n])"

text \<open>
  A text file written by \<open>np.savetxt\<close> is modelled as the list of its lines, a line as
  the list of the numbers on it: \<open>savetxt\<close> writes each number with 18 decimals, from
  which \<open>loadtxt\<close> reads the same double back, so the text itself is not modelled.
  \<open>dump\<close> writes one line per stored histogram; indexing past the array raises.
\<close>

definition FHD_dump :: "FHD \<Rightarrow> error + float64 list list" where
  "FHD_dump A =
     (if N A \<le> dim0 (fhistograms A) \<and> N A \<le> dim1 (fhistograms A)
      then Inr (map (\<lambda>(i, j). cells (fhistograms A) ! i ! j) (triu_indices (N A)))
      else Inl IndexError)"

text \<open>
  What \<open>np.loadtxt\<close> returns: empty lines are skipped; no data gives an empty vector;
  lines of different lengths raise; otherwise the table is squeezed, so one line or one
  column gives a vector, and a single number gives an array of dimension zero.
\<close>

datatype loaded = Arr0 float64 | Arr1 "float64 list" | Arr2 "float64 list list"

definition np_loadtxt :: "float64 list list \<Rightarrow> error + loaded" where
  "np_loadtxt lines =
     (let rows = filter (\<lambda>r. r \<noteq> []) lines in
      if rows = [] then Inr (Arr1 [])
      else if \<not> list_all (\<lambda>r. length r = length (hd rows)) rows then Inl ValueError
      else if length rows = 1 \<and> length (hd rows) = 1 then Inr (Arr0 (hd (hd rows)))
      else if length rows = 1 then Inr (Arr1 (hd rows))
      else if length (hd rows) = 1 then Inr (Arr1 (map hd rows))
      else Inr (Arr2 rows))"

text \<open>
  \<open>fhistograms = np.ndarray((N, N, num_dirs))\<close> followed by
  \<open>fhistograms[np.triu_indices(N)] = rows\<close>: the cells of the upper triangle take the
  rows in order, the others keep what the memory held, here \<open>junk\<close>.
\<close>

definition assign_triu :: "nat \<Rightarrow> nat \<Rightarrow> (nat \<Rightarrow> nat \<Rightarrow> nat \<Rightarrow> float64) \<Rightarrow> float64 list list \<Rightarrow> ndarray3" where
  "assign_triu n d junk rows =
     \<lparr>dim0 = n, dim1 = n, dim2 = d,
      cells = map (\<lambda>i. map (\<lambda>j.
                case map_of (zip (triu_indices n) rows) (i, j) of
                  Some row \<Rightarrow> row
                | None \<Rightarrow> map (junk i j) [0..<d]) [0..<n]) [0..<n]\<rparr>"

text \<open>
  \<open>load\<close>: \<open>shape[-1]\<close> of an array of dimension zero raises \<open>IndexError\<close>; a vector is
  broadcast to every row of the triangle; a table must have as many rows as the
  triangle has cells.
\<close>

definition FHD_load :: "float64 list list \<Rightarrow> nat \<Rightarrow> float64 \<Rightarrow> float64 \<Rightarrow> (nat \<Rightarrow> nat \<Rightarrow> nat \<Rightarrow> float64) \<Rightarrow> error + FHD" where
  "FHD_load file n sf spf junk =
     ebind (np_loadtxt file) (\<lambda>fhistograms_from_file.
       case fhistograms_from_file of
         Arr0 x \<Rightarrow> Inl IndexError
       | Arr1 v \<Rightarrow>
           Inr (FHD_init (assign_triu n (length v) junk
                  (replicate (length (triu_indices n)) v)) sf spf)
       | Arr2 rows \<Rightarrow>
           if length rows \<noteq> length (triu_indices n) then Inl ValueError
           else Inr (FHD_init (assign_triu n (length (hd rows)) junk rows) sf spf))"

section \<open>Vocabulary of the properties\<close>

text \<open>The metric names the module recognises, and the inputs its first three checks refuse.\<close>

definition metric_names :: "string list" where
  "metric_names = [''L1'', ''manhattan'', ''man'', ''L2'', ''euclidean'', ''euc'',
                   ''CHI2'', ''chi2'', ''CEMD'', ''cemd'', ''jaccard'']"

definition implemented_metrics :: "string list" where
  "implemented_metrics = [''L1'', ''manhattan'', ''man'', ''L2'', ''euclidean'', ''euc'',
                          ''CHI2'', ''chi2'', ''jaccard'']"

definition bad_inputs :: "harray \<Rightarrow> harray \<Rightarrow> bool" where
  "bad_inputs a b =
     (1 < ndim a \<or> 1 < ndim b \<or> asize a = 0 \<or> asize b = 0 \<or> asize a \<noteq> asize b)"

text \<open>A one-dimensional array with the given entries.\<close>

definition vec :: "float64 list \<Rightarrow> harray" where
  "vec xs = \<lparr>ndim = 1, elems = xs\<rparr>"

text \<open>
  The CHI2 formula on real numbers with the convention \<open>0/0 = 0\<close>, and min-max
  normalisation on real numbers: the words of the specification.
\<close>

definition chi2_term :: "real \<Rightarrow> real \<Rightarrow> real" where
  "chi2_term x y = (if x + y = 0 then 0 else (x - y)\<^sup>2 / (x + y))"

definition chi2_sum :: "real list \<Rightarrow> real list \<Rightarrow> real" where
  "chi2_sum a b = sum_list (map2 chi2_term a b)"

definition minmax :: "real list \<Rightarrow> real list" where
  "minmax a = map (\<lambda>x. (x - Min (set a)) / (Max (set a) - Min (set a))) a"

text \<open>A histogram whose entries are not all equal: its range is not zero.\<close>

definition varied :: "real list \<Rightarrow> bool" where
  "varied a = (\<exists>x\<in>set a. \<exists>y\<in>set a. x \<noteq> y)"

text \<open>What one bucket adds to the CHI2 sum of the code, once \<open>nansum\<close> has dropped the NaN.\<close>

definition chi2_bucket :: "real \<Rightarrow> real \<Rightarrow> float64" where
  "chi2_bucket x y = (if x + y = 0 \<and> x \<noteq> y then PInf else Fin (chi2_term x y))"

text \<open>
  The words of the specification for the spatial term. Rotating a histogram by \<open>k\<close>
  buckets moves bucket \<open>t\<close> to bucket \<open>(t + k) mod D\<close>, so bucket \<open>t\<close> of the result is
  bucket \<open>(t - k) mod D\<close> of the histogram. The term of the pair \<open>(i, j)\<close> under the
  matching \<open>m\<close> compares \<open>A[i, j]\<close> with \<open>B[m i, m j]\<close> when \<open>m i \<le> m j\<close> and with
  \<open>B[m j, m i]\<close> rotated by \<open>D div 2\<close> otherwise. The pairs \<open>i < j\<close> come in loop order.
\<close>

definition rotate_buckets :: "'a list \<Rightarrow> nat \<Rightarrow> 'a list" where
  "rotate_buckets h k =
     map (\<lambda>t. h ! ((t + length h - k mod length h) mod length h)) [0..<length h]"

definition cell :: "FHD \<Rightarrow> nat \<Rightarrow> nat \<Rightarrow> float64 list" where
  "cell A i j = cells (fhistograms A) ! i ! j"

definition spatial_term :: "FHD \<Rightarrow> FHD \<Rightarrow> string \<Rightarrow> (nat \<Rightarrow> nat) \<Rightarrow> nat \<times> nat \<Rightarrow> error + float64" where
  "spatial_term A B metric m ij =
     (case ij of (i, j) \<Rightarrow>
       if m i \<le> m j then hdist_distance (vec (cell A i j)) (vec (cell B (m i) (m j))) metric True
       else hdist_distance (vec (cell A i j))
              (vec (rotate_buckets (cell B (m j) (m i)) (num_dirs B div 2))) metric True)"

definition index_pairs :: "nat \<Rightarrow> (nat \<times> nat) list" where
  "index_pairs n = concat (map (\<lambda>i. map (Pair i) [i + 1..<n]) [0..<n])"

text \<open>
  Two descriptors with two layers and four directions, for the worked examples. The
  first is the one of the specification's end-to-end scenario; in the second both layers
  have the same shape histogram. The cell below the diagonal is never read.
\<close>

definition FHD_of_cells :: "float64 list list list \<Rightarrow> nat \<Rightarrow> FHD" where
  "FHD_of_cells c d =
     FHD_init \<lparr>dim0 = length c, dim1 = length c, dim2 = d, cells = c\<rparr> (Fin 0) (Fin 0)"

definition example_A :: FHD where
  "example_A = FHD_of_cells
     [[[Fin 1, Fin 0, Fin 0, Fin 0], [Fin 0, Fin 1, Fin 0, Fin 0]],
      [[NaN, NaN, NaN, NaN], [Fin 0, Fin 0, Fin 1, Fin 0]]] 4"

definition example_B :: FHD where
  "example_B = FHD_of_cells
     [[[Fin 1, Fin 0, Fin 0, Fin 0], [Fin 0, Fin 1, Fin 0, Fin 0]],
      [[NaN, NaN, NaN, NaN], [Fin 1, Fin 0, Fin 0, Fin 0]]] 4"

text \<open>
  The shape distance between layer \<open>i\<close> of \<open>A\<close> and layer \<open>j\<close> of \<open>B\<close> as a real number,
  where the code computes a finite one; the descriptors all of whose shape distances are
  finite; and the sum of a candidate matching, given as the list of the images of
  \<open>0, 1, \<dots>\<close>: the words of the specification for the optimal strategy.
\<close>

definition shape_dist :: "FHD \<Rightarrow> FHD \<Rightarrow> string \<Rightarrow> nat \<Rightarrow> nat \<Rightarrow> real" where
  "shape_dist A B metric i j =
     (case hist_distance A B metric i i j j of Inr (Fin r) \<Rightarrow> r | _ \<Rightarrow> 0)"

definition finite_shape_distances :: "FHD \<Rightarrow> FHD \<Rightarrow> string \<Rightarrow> bool" where
  "finite_shape_distances A B metric =
     (\<forall>i<N A. \<forall>j<N B. \<exists>r. hist_distance A B metric i i j j = Inr (Fin r))"

definition matching_cost :: "FHD \<Rightarrow> FHD \<Rightarrow> string \<Rightarrow> nat list \<Rightarrow> real" where
  "matching_cost A B metric p = (\<Sum>(i, j)\<leftarrow>enumerate 0 p. shape_dist A B metric i j)"

text \<open>The matching dictionary \<open>{i: p[i]}\<close> of a list \<open>p\<close> of \<open>n\<close> images.\<close>

definition matching_of :: "nat \<Rightarrow> nat list \<Rightarrow> (nat \<rightharpoonup> nat)" where
  "matching_of n p = (\<lambda>i. if i < n then Some (p ! i) else None)"

text \<open>The result of a matching function with its dictionary listed for the keys \<open>0, \<dots>, n - 1\<close>.\<close>

definition matching_image :: "nat \<Rightarrow> error + (float64 \<times> (nat \<rightharpoonup> nat)) \<Rightarrow> error + (float64 \<times> nat option list)" where
  "matching_image n r = (case r of Inl e \<Rightarrow> Inl e | Inr (d, m) \<Rightarrow> Inr (d, map m [0..<n]))"

text \<open>
  The state of the greedy loop after \<open>k\<close> rounds, for finite shape distances \<open>d\<close>: the
  first \<open>k\<close> layers are matched by an injective \<open>f\<close>, the choices are the indices not
  yet used, the distance is the sum so far, and each layer was given an unused index of
  least distance.
\<close>

definition greedy_inv :: "(nat \<Rightarrow> nat \<Rightarrow> real) \<Rightarrow> nat \<Rightarrow> nat \<Rightarrow> (nat \<Rightarrow> nat) \<Rightarrow>
    float64 \<times> (nat \<rightharpoonup> nat) \<times> nat list \<Rightarrow> bool" where
  "greedy_inv d n k f st =
     (case st of (dst, m, ch) \<Rightarrow>
        dst = Fin (\<Sum>i<k. d i (f i)) \<and> (\<forall>i<k. m i = Some (f i)) \<and> inj_on f {..<k} \<and>
        f ` {..<k} \<subseteq> {0..<n} \<and> set ch = {0..<n} - f ` {..<k} \<and> distinct ch \<and>
        (\<forall>i<k. \<forall>j<n. j \<notin> f ` {..<i} \<longrightarrow> d i (f i) \<le> d i j))"

text \<open>A descriptor with one layer whose shape histogram has all entries equal.\<close>

definition example_C :: FHD where
  "example_C = FHD_of_cells [[[Fin 3, Fin 3]]] 2"

text \<open>
  A descriptor all of whose stored histograms (row \<open>\<le>\<close> column) have finite entries
  that are not all equal; and a descriptor no two layers of which are at shape distance
  zero from each other.
\<close>

definition regular_descriptor :: "FHD \<Rightarrow> bool" where
  "regular_descriptor A =
     (\<forall>i<N A. \<forall>j<N A. i \<le> j \<longrightarrow> (\<exists>r. cell A i j = map Fin r \<and> varied r))"

definition distinct_shapes :: "FHD \<Rightarrow> string \<Rightarrow> bool" where
  "distinct_shapes A metric =
     (\<forall>i<N A. \<forall>j<N A. i \<noteq> j \<longrightarrow> hist_distance A A metric i i j j \<noteq> Inr (Fin 0))"

text \<open>A descriptor with two layers and one direction, and the one read back from its dump.\<close>

definition example_D :: FHD where
  "example_D = FHD_of_cells [[[Fin 1], [Fin 2]], [[NaN], [Fin 3]]] 1"

definition example_D_reloaded :: "error + FHD" where
  "example_D_reloaded =
     ebind (FHD_dump example_D) (\<lambda>file.
       FHD_load file (N example_D) (shape_force example_D) (spatial_force example_D)
         (\<lambda>i j k. NaN))"

text \<open>The attributes and the cells of a descriptor that a call returned.\<close>

definition FHD_view :: "error + FHD \<Rightarrow> error + (nat \<times> nat \<times> float64 list list list)" where
  "FHD_view r = (case r of Inl e \<Rightarrow> Inl e | Inr X \<Rightarrow> Inr (N X, num_dirs X, cells (fhistograms X)))"

section \<open>Properties of the histogram distance\<close>

lemma ebind_simps [simp]:
  "ebind (Inl e) f = Inl e"
  "ebind (Inr x) f = f x"
  by (simp_all add: ebind_def)

lemma metric_in_simps:
  "metric_in m ''L1'' = (m \<in> {''L1'', ''manhattan'', ''man''})"
  "metric_in m ''L2'' = (m \<in> {''L2'', ''euclidean'', ''euc''})"
  "metric_in m ''CHI2'' = (m \<in> {''CHI2'', ''chi2''})"
  "metric_in m ''CEMD'' = (m \<in> {''CEMD'', ''cemd''})"
  "metric_in m ''jaccard'' = (m = ''jaccard'')"
  by (simp_all add: metric_in_def metrics_def)

lemma vec_simps [simp]:
  "ndim (vec xs) = 1"
  "elems (vec xs) = xs"
  "asize (vec xs) = length xs"
  by (simp_all add: vec_def asize_def)

lemma hdist_normalized_ok:
  "a \<noteq> [] \<Longrightarrow> \<exists>a'. hdist_normalized a = Inr a' \<and> length a' = length a"
  by (cases a) (simp_all add: hdist_normalized_def)

lemma metric_value_errors:
  "(metric_value m a b = Inl ValueError) = (m \<notin> set metric_names)"
  "(metric_value m a b = Inl NotImplementedError) = (m \<in> {''CEMD'', ''cemd''})"
  "metric_value m a b \<noteq> Inl IndexError"
  "metric_value m a b \<noteq> Inl KeyError"
  by (auto simp add: metric_value_def metric_in_simps metric_names_def)

lemma metric_value_alias:
  "metric_value ''manhattan'' = metric_value ''L1''"
  "metric_value ''man'' = metric_value ''L1''"
  "metric_value ''euclidean'' = metric_value ''L2''"
  "metric_value ''euc'' = metric_value ''L2''"
  "metric_value ''chi2'' = metric_value ''CHI2''"
  "metric_value ''cemd'' = metric_value ''CEMD''"
  by (intro ext, simp add: metric_value_def metric_in_simps)+

lemma hdist_distance_bad:
  "bad_inputs a b \<Longrightarrow> hdist_distance a b m nrm = Inl ValueError"
  by (auto simp add: hdist_distance_def bad_inputs_def)

lemma hdist_distance_good:
  assumes "\<not> bad_inputs a b"
  shows "\<exists>a' b'. hdist_distance a b m nrm = metric_value m a' b'"
proof -
  from assms have ne: "elems a \<noteq> []" "elems b \<noteq> []"
    by (auto simp add: bad_inputs_def asize_def)
  obtain a' where a': "hdist_normalized (elems a) = Inr a'"
    using hdist_normalized_ok [OF ne(1)] by blast
  obtain b' where b': "hdist_normalized (elems b) = Inr b'"
    using hdist_normalized_ok [OF ne(2)] by blast
  show ?thesis
  proof (cases nrm)
    case True
    with assms a' b' have "hdist_distance a b m nrm = metric_value m a' b'"
      by (simp add: hdist_distance_def bad_inputs_def)
    then show ?thesis by blast
  next
    case False
    with assms have "hdist_distance a b m nrm = metric_value m (elems a) (elems b)"
      by (simp add: hdist_distance_def bad_inputs_def)
    then show ?thesis by blast
  qed
qed

lemma varied_Min_Max:
  assumes "varied a"
  shows "a \<noteq> []" and "Min (set a) < Max (set a)"
proof -
  from assms obtain x y where xy: "x \<in> set a" "y \<in> set a" "x \<noteq> y"
    by (auto simp add: varied_def)
  then show "a \<noteq> []" by auto
  from xy have "Min (set a) \<le> x" "Min (set a) \<le> y" "x \<le> Max (set a)" "y \<le> Max (set a)"
    by simp_all
  with xy(3) show "Min (set a) < Max (set a)" by linarith
qed

lemma not_varied_const:
  assumes "\<not> varied a" "x \<in> set a"
  shows "x = Min (set a)" and "Max (set a) = Min (set a)"
proof -
  from assms have eq: "\<And>y. y \<in> set a \<Longrightarrow> y = x"
    by (auto simp add: varied_def)
  from assms(2) have "Min (set a) \<in> set a" "Max (set a) \<in> set a"
    by (auto intro: Min_in Max_in)
  with eq show "x = Min (set a)" "Max (set a) = Min (set a)" by auto
qed

lemma fl_sub_Fin [simp]: "fl_sub (Fin x) (Fin y) = Fin (x - y)"
  by (simp add: fl_sub_def)

lemma foldl_fl_add_Fin: "foldl fl_add (Fin s) (map Fin xs) = Fin (s + sum_list xs)"
  by (induction xs arbitrary: s) (simp_all add: add.assoc)

lemma np_sum_Fin: "np_sum (map Fin xs) = Fin (sum_list xs)"
  by (simp add: np_sum_def foldl_fl_add_Fin)

lemma foldl_fl_add_PInf:
  "NInf \<notin> set xs \<Longrightarrow> NaN \<notin> set xs \<Longrightarrow> foldl fl_add PInf xs = PInf"
proof (induction xs)
  case Nil then show ?case by simp
next
  case (Cons x xs) then show ?case by (cases x) simp_all
qed

lemma foldl_fl_add_has_PInf:
  "PInf \<in> set xs \<Longrightarrow> NInf \<notin> set xs \<Longrightarrow> NaN \<notin> set xs \<Longrightarrow> foldl fl_add (Fin s) xs = PInf"
proof (induction xs arbitrary: s)
  case Nil then show ?case by simp
next
  case (Cons x xs)
  then show ?case by (cases x) (simp_all add: foldl_fl_add_PInf)
qed

lemma chi2_bucket_eq:
  "(let t = fl_div (fl_mul (fl_sub (Fin x) (Fin y)) (fl_sub (Fin x) (Fin y))) (fl_add (Fin x) (Fin y))
    in if t = NaN then Fin 0 else t) = chi2_bucket x y"
  by (auto simp add: chi2_bucket_def chi2_term_def fl_inf_def power2_eq_square Let_def)

lemma chi2_list:
  "length a = length b \<Longrightarrow>
   map (\<lambda>x. if x = NaN then Fin 0 else x)
     (np_divide (np_square (np_sub (map Fin a) (map Fin b))) (np_add (map Fin a) (map Fin b)))
   = map2 chi2_bucket a b"
proof (induction a b rule: list_induct2)
  case Nil then show ?case by (simp add: np_divide_def np_square_def np_sub_def np_add_def)
next
  case (Cons x xs y ys)
  then show ?case using chi2_bucket_eq[of x y]
    by (simp add: np_divide_def np_square_def np_sub_def np_add_def Let_def)
qed

lemma chi2_value:
  assumes "length a = length b"
  shows "metric_value ''CHI2'' (map Fin a) (map Fin b) =
    Inr (if \<exists>(x, y) \<in> set (zip a b). x + y = 0 \<and> x \<noteq> y then PInf else Fin (chi2_sum a b))"
proof -
  have mv: "metric_value ''CHI2'' (map Fin a) (map Fin b) = Inr (np_sum (map2 chi2_bucket a b))"
    using chi2_list[OF assms] by (simp add: metric_value_def metric_in_simps np_nansum_def)
  show ?thesis
  proof (cases "\<exists>(x, y) \<in> set (zip a b). x + y = 0 \<and> x \<noteq> y")
    case True
    then have "PInf \<in> set (map2 chi2_bucket a b)"
      by (force simp add: chi2_bucket_def)
    moreover have "NInf \<notin> set (map2 chi2_bucket a b)" "NaN \<notin> set (map2 chi2_bucket a b)"
      by (auto simp add: chi2_bucket_def split: if_splits)
    ultimately have "np_sum (map2 chi2_bucket a b) = PInf"
      unfolding np_sum_def by (rule foldl_fl_add_has_PInf)
    with True mv show ?thesis by simp
  next
    case False
    then have h: "map2 chi2_bucket a b = map Fin (map2 chi2_term a b)"
      by (auto simp add: chi2_bucket_def)
    have "np_sum (map2 chi2_bucket a b) = Fin (chi2_sum a b)"
      unfolding h np_sum_Fin chi2_sum_def by (rule refl)
    with False mv show ?thesis by simp
  qed
qed


lemma fl_min_Fin [simp]: "fl_min (Fin x) (Fin y) = Fin (min x y)"
  by (simp add: min_def)

lemma fl_max_Fin [simp]: "fl_max (Fin x) (Fin y) = Fin (max x y)"
  by (simp add: max_def)

lemma foldl_fl_min_Fin: "foldl fl_min (Fin x) (map Fin xs) = Fin (Min (set (x # xs)))"
proof (induction xs arbitrary: x)
  case Nil then show ?case by simp
next
  case (Cons y ys)
  have "foldl fl_min (Fin x) (map Fin (y # ys)) = foldl fl_min (Fin (min x y)) (map Fin ys)"
    by (simp add: min_def)
  also have "\<dots> = Fin (Min (set (min x y # ys)))"
    by (rule Cons.IH)
  also have "Min (set (min x y # ys)) = Min (set (x # y # ys))"
    by (cases "ys = []") (simp_all add: min.assoc)
  finally show ?case .
qed

lemma foldl_fl_max_Fin: "foldl fl_max (Fin x) (map Fin xs) = Fin (Max (set (x # xs)))"
proof (induction xs arbitrary: x)
  case Nil then show ?case by simp
next
  case (Cons y ys)
  have "foldl fl_max (Fin x) (map Fin (y # ys)) = foldl fl_max (Fin (max x y)) (map Fin ys)"
    by (simp add: max_def)
  also have "\<dots> = Fin (Max (set (max x y # ys)))"
    by (rule Cons.IH)
  also have "Max (set (max x y # ys)) = Max (set (x # y # ys))"
    by (cases "ys = []") (simp_all add: max.assoc)
  finally show ?case .
qed

lemma np_amin_Fin: "a \<noteq> [] \<Longrightarrow> np_amin (map Fin a) = Inr (Fin (Min (set a)))"
  by (cases a) (simp_all only: list.map np_amin.simps foldl_fl_min_Fin, simp)

lemma np_amax_Fin: "a \<noteq> [] \<Longrightarrow> np_amax (map Fin a) = Inr (Fin (Max (set a)))"
  by (cases a) (simp_all only: list.map np_amax.simps foldl_fl_max_Fin, simp)

lemma hdist_normalized_Fin:
  assumes "a \<noteq> []"
  shows "hdist_normalized (map Fin a) =
    Inr (if varied a then map Fin (minmax a) else map (\<lambda>x. NaN) a)"
proof (cases "varied a")
  case True
  then have "Min (set a) < Max (set a)" by (rule varied_Min_Max)
  with True show ?thesis
    using assms by (simp add: hdist_normalized_def np_amin_Fin np_amax_Fin minmax_def)
next
  case False
  then have "map (\<lambda>x. fl_div (fl_sub (Fin x) (Fin (Min (set a)))) (fl_sub (Fin (Max (set a))) (Fin (Min (set a))))) a
      = map (\<lambda>x. NaN) a"
    using not_varied_const [OF False] by (intro map_cong) simp_all
  with False show ?thesis
    using assms by (simp add: hdist_normalized_def np_amin_Fin np_amax_Fin comp_def)
qed

lemma np_sub_Fin: "np_sub (map Fin a) (map Fin b) = map Fin (map2 (-) a b)"
  by (simp add: np_sub_def zip_map_map split_def)

lemma np_abs_Fin: "np_abs (map Fin a) = map Fin (map abs a)"
  by (simp add: np_abs_def)

lemma np_square_Fin: "np_square (map Fin a) = map Fin (map (\<lambda>x. x * x) a)"
  by (simp add: np_square_def)

lemma np_minimum_Fin: "np_minimum (map Fin a) (map Fin b) = map Fin (map2 min a b)"
  by (simp add: np_minimum_def zip_map_map split_def)

lemma np_maximum_Fin: "np_maximum (map Fin a) (map Fin b) = map Fin (map2 max a b)"
  by (simp add: np_maximum_def zip_map_map split_def)

lemma metric_value_L1_Fin:
  "metric_value ''L1'' (map Fin a) (map Fin b) = Inr (Fin (\<Sum>(x, y)\<leftarrow>zip a b. \<bar>x - y\<bar>))"
proof -
  have "np_sum (np_abs (np_sub (map Fin a) (map Fin b))) = Fin (sum_list (map abs (map2 (-) a b)))"
    unfolding np_sub_Fin np_abs_Fin np_sum_Fin by (rule refl)
  then show ?thesis
    by (simp add: metric_value_def metric_in_simps split_def comp_def)
qed

lemma metric_value_L2_Fin:
  "metric_value ''L2'' (map Fin a) (map Fin b) = Inr (Fin (sqrt (\<Sum>(x, y)\<leftarrow>zip a b. (x - y)\<^sup>2)))"
proof -
  have "np_sum (np_square (np_sub (map Fin a) (map Fin b))) =
      Fin (sum_list (map (\<lambda>x. x * x) (map2 (-) a b)))"
    unfolding np_sub_Fin np_square_Fin np_sum_Fin by (rule refl)
  moreover have "0 \<le> sum_list (map (\<lambda>x. x * x) (map2 (-) a b))"
    by (rule sum_list_nonneg) auto
  ultimately show ?thesis
    by (simp add: metric_value_def metric_in_simps np_linalg_norm_def split_def comp_def
        power2_eq_square real_sqrt_def)
qed

lemma metric_value_jaccard_Fin:
  assumes "sum_list (map2 max a b) \<noteq> 0"
  shows "metric_value ''jaccard'' (map Fin a) (map Fin b) =
    Inr (Fin (1 - sum_list (map2 min a b) / sum_list (map2 max a b)))"
proof -
  have "np_sum (np_minimum (map Fin a) (map Fin b)) = Fin (sum_list (map2 min a b))"
    unfolding np_minimum_Fin np_sum_Fin by (rule refl)
  moreover have "np_sum (np_maximum (map Fin a) (map Fin b)) = Fin (sum_list (map2 max a b))"
    unfolding np_maximum_Fin np_sum_Fin by (rule refl)
  ultimately show ?thesis
    using assms by (simp add: metric_value_def metric_in_simps)
qed

lemma zip_same: "zip a a = map (\<lambda>x. (x, x)) a"
  by (induction a) simp_all

lemma metric_value_self:
  assumes "metric \<in> set implemented_metrics" and "sum_list a \<noteq> 0"
  shows "metric_value metric (map Fin a) (map Fin a) = Inr (Fin 0)"
proof -
  have L1: "metric_value ''L1'' (map Fin a) (map Fin a) = Inr (Fin 0)"
    unfolding metric_value_L1_Fin by (simp add: zip_same comp_def)
  have L2: "metric_value ''L2'' (map Fin a) (map Fin a) = Inr (Fin 0)"
    unfolding metric_value_L2_Fin by (simp add: zip_same comp_def)
  have "chi2_term x x = 0" for x
    by (simp add: chi2_term_def)
  then have C: "metric_value ''CHI2'' (map Fin a) (map Fin a) = Inr (Fin 0)"
    by (simp add: chi2_value zip_same chi2_sum_def comp_def)
  have J: "metric_value ''jaccard'' (map Fin a) (map Fin a) = Inr (Fin 0)"
    using assms(2) by (subst metric_value_jaccard_Fin) (simp_all add: zip_same comp_def)
  from assms(1) L1 L2 C J show ?thesis
    by (auto simp add: implemented_metrics_def metric_value_alias)
qed

lemma length_minmax [simp]: "length (minmax a) = length a"
  by (simp add: minmax_def)

lemma minmax_range:
  assumes "varied a" "x \<in> set (minmax a)"
  shows "0 \<le> x \<and> x \<le> 1"
proof -
  from assms(2) obtain y where y: "y \<in> set a" "x = (y - Min (set a)) / (Max (set a) - Min (set a))"
    by (auto simp add: minmax_def)
  from y(1) have "0 \<le> y - Min (set a)" "y - Min (set a) \<le> Max (set a) - Min (set a)"
    by simp_all
  moreover have "0 < Max (set a) - Min (set a)"
    using varied_Min_Max(2) [OF assms(1)] by simp
  ultimately show ?thesis
    unfolding y(2) by (simp add: divide_le_eq_1)
qed

lemma minmax_sum_pos:
  assumes "varied a"
  shows "0 < sum_list (minmax a)"
proof -
  have lt: "Min (set a) < Max (set a)" and ne: "a \<noteq> []"
    using varied_Min_Max [OF assms] by simp_all
  then have "Max (set a) \<in> set a" by simp
  then have "(Max (set a) - Min (set a)) / (Max (set a) - Min (set a)) \<in> set (minmax a)"
    unfolding minmax_def by (simp add: image_iff) blast
  with lt have one: "1 \<in> set (minmax a)" by simp
  have nn: "\<And>x. x \<in> set (minmax a) \<Longrightarrow> 0 \<le> x" using minmax_range[OF assms] by blast
  from one obtain ys zs where "minmax a = ys @ 1 # zs"
    by (auto simp add: in_set_conv_decomp)
  moreover from this nn have "0 \<le> sum_list ys" "0 \<le> sum_list zs"
    by (auto intro!: sum_list_nonneg)
  ultimately have "1 \<le> sum_list (minmax a)" by simp
  then show ?thesis by simp
qed

lemma minmax_no_bad_bucket:
  assumes "varied a" "varied b" "(x, y) \<in> set (zip (minmax a) (minmax b))" "x + y = 0"
  shows "x = y"
proof -
  from assms(3) have "x \<in> set (minmax a)" "y \<in> set (minmax b)"
    by (auto dest: set_zip_leftD set_zip_rightD)
  then have "0 \<le> x" "0 \<le> y"
    using minmax_range assms(1,2) by blast+
  with assms(4) show ?thesis by simp
qed

lemma np_sum_zeros: "np_sum (map (\<lambda>x. Fin 0) xs) = Fin 0"
  using np_sum_Fin [of "map (\<lambda>x. 0) xs"] by (simp add: comp_def)

lemma chi2_nan_left:
  "length a = length b \<Longrightarrow> metric_value ''CHI2'' (map (\<lambda>x. NaN) a) b = Inr (Fin 0)"
proof -
  assume len: "length a = length b"
  then have "map (\<lambda>x. if x = NaN then Fin 0 else x)
      (np_divide (np_square (np_sub (map (\<lambda>x. NaN) a) b)) (np_add (map (\<lambda>x. NaN) a) b))
      = map (\<lambda>x. Fin 0) a"
    by (induction a b rule: list_induct2)
      (simp_all add: np_divide_def np_square_def np_sub_def np_add_def fl_sub_def)
  then show ?thesis
    by (simp add: metric_value_def metric_in_simps np_nansum_def np_sum_zeros)
qed

lemma fl_sub_NaN_right [simp]: "fl_sub x NaN = NaN"
  by (cases x) (simp_all add: fl_sub_def)

lemma fl_add_NaN_right [simp]: "fl_add x NaN = NaN"
  by (cases x) simp_all

lemma fl_div_NaN_right [simp]: "fl_div x NaN = NaN"
  by (cases x) simp_all

lemma chi2_nan_right:
  "length a = length b \<Longrightarrow> metric_value ''CHI2'' a (map (\<lambda>x. NaN) b) = Inr (Fin 0)"
proof -
  assume len: "length a = length b"
  then have "map (\<lambda>x. if x = NaN then Fin 0 else x)
      (np_divide (np_square (np_sub a (map (\<lambda>x. NaN) b))) (np_add a (map (\<lambda>x. NaN) b)))
      = map (\<lambda>x. Fin 0) a"
    by (induction a b rule: list_induct2)
      (simp_all add: np_divide_def np_square_def np_sub_def np_add_def)
  then show ?thesis
    by (simp add: metric_value_def metric_in_simps np_nansum_def np_sum_zeros)
qed

lemma hdist_self_zero:
  assumes "varied a" and "metric \<in> set implemented_metrics"
  shows "hdist_distance (vec (map Fin a)) (vec (map Fin a)) metric True = Inr (Fin 0)"
proof -
  from assms(1) have ne: "a \<noteq> []" by (rule varied_Min_Max)
  have "hdist_distance (vec (map Fin a)) (vec (map Fin a)) metric True =
      metric_value metric (map Fin (minmax a)) (map Fin (minmax a))"
    using ne assms(1) by (simp add: hdist_distance_def hdist_normalized_Fin)
  also have "\<dots> = Inr (Fin 0)"
    using assms(2) minmax_sum_pos[OF assms(1)] by (intro metric_value_self) simp_all
  finally show ?thesis .
qed










text \<open>
  Claim C9, as the code has it. Every alias the dictionary lists gives the result of its
  canonical name, on all inputs; the comparison of names is exact, so a name that
  differs from the listed spellings, if only in letter case, raises \<open>ValueError\<close>.
\<close>

theorem hdist_distance_aliases:
  "hdist_distance a b ''manhattan'' nrm = hdist_distance a b ''L1'' nrm \<and>
   hdist_distance a b ''man'' nrm = hdist_distance a b ''L1'' nrm \<and>
   hdist_distance a b ''euclidean'' nrm = hdist_distance a b ''L2'' nrm \<and>
   hdist_distance a b ''euc'' nrm = hdist_distance a b ''L2'' nrm \<and>
   hdist_distance a b ''chi2'' nrm = hdist_distance a b ''CHI2'' nrm \<and>
   hdist_distance a b ''cemd'' nrm = hdist_distance a b ''CEMD'' nrm \<and>
   (metric \<notin> set metric_names \<longrightarrow> hdist_distance a b metric nrm = Inl ValueError)"
proof -
  have al: "hdist_distance a b ''manhattan'' nrm = hdist_distance a b ''L1'' nrm"
    "hdist_distance a b ''man'' nrm = hdist_distance a b ''L1'' nrm"
    "hdist_distance a b ''euclidean'' nrm = hdist_distance a b ''L2'' nrm"
    "hdist_distance a b ''euc'' nrm = hdist_distance a b ''L2'' nrm"
    "hdist_distance a b ''chi2'' nrm = hdist_distance a b ''CHI2'' nrm"
    "hdist_distance a b ''cemd'' nrm = hdist_distance a b ''CEMD'' nrm"
    by (simp_all only: hdist_distance_def metric_value_alias)
  have unknown: "hdist_distance a b metric nrm = Inl ValueError" if "metric \<notin> set metric_names"
  proof (cases "bad_inputs a b")
    case True
    then show ?thesis by (rule hdist_distance_bad)
  next
    case False
    then obtain a' b' where "hdist_distance a b metric nrm = metric_value metric a' b'"
      using hdist_distance_good by blast
    with that show ?thesis by (simp add: metric_value_errors)
  qed
  show ?thesis
    using unknown al by simp
qed

theorem hdist_distance_aliases_witness:
  "''l1'' \<notin> set metric_names \<and>
   hdist_distance (vec [Fin 1, Fin 2]) (vec [Fin 3, Fin 5]) ''l1'' True = Inl ValueError"
proof -
  have "''l1'' \<notin> set metric_names"
    by (simp add: metric_names_def)
  with hdist_distance_aliases [of "vec [Fin 1, Fin 2]" "vec [Fin 3, Fin 5]" True "''l1''"]
  show ?thesis by simp
qed

text \<open>
  Claim C9 as stated fails: the canonical name \<open>L1\<close> in lower case is not recognised,
  while \<open>L1\<close> itself returns a distance.
\<close>

theorem hdist_distance_aliases_counterexample:
  "hdist_distance (vec [Fin 1, Fin 2]) (vec [Fin 2, Fin 1]) ''l1'' True = Inl ValueError \<and>
   hdist_distance (vec [Fin 1, Fin 2]) (vec [Fin 2, Fin 1]) ''L1'' True = Inr (Fin 2)"
  by (simp add: hdist_distance_def hdist_normalized_def metric_value_def
      metric_in_simps np_sum_def np_abs_def np_sub_def fl_sub_def)

section \<open>Loops, rotation, permutations and dictionaries\<close>

lemma rot_index_low: "t < r \<Longrightarrow> r < n \<Longrightarrow> (t + n - r) mod n = n - r + (t::nat)"
proof -
  assume a: "t < r" "r < n"
  then have "t + n - r < n" by arith
  then have "(t + n - r) mod n = t + n - r" by (rule mod_less)
  also from a have "\<dots> = n - r + t" by arith
  finally show ?thesis .
qed

lemma rot_index_high: "\<not> t < r \<Longrightarrow> t < n \<Longrightarrow> (t + n - r) mod n = t - (r::nat)"
proof -
  assume a: "\<not> t < r" "t < n"
  then have "t + n - r = (t - r) + n" by arith
  then have "(t + n - r) mod n = (t - r) mod n" by (simp only: mod_add_self2)
  also from a have "\<dots> = t - r" by (intro mod_less) arith
  finally show ?thesis .
qed

lemma roll_nth:
  assumes "r < length xs" "t < length xs"
  shows "(drop (length xs - r) xs @ take (length xs - r) xs) ! t =
         xs ! ((t + length xs - r) mod length xs)"
proof (cases "t < r")
  case True
  with assms have "(drop (length xs - r) xs @ take (length xs - r) xs) ! t = xs ! (length xs - r + t)"
    by (simp add: nth_append)
  then show ?thesis by (simp only: rot_index_low [OF True assms(1)])
next
  case False
  with assms have "(drop (length xs - r) xs @ take (length xs - r) xs) ! t = xs ! (t - r)"
    by (simp add: nth_append)
  then show ?thesis by (simp only: rot_index_high [OF False assms(2)])
qed

lemma np_roll_rotate_buckets: "np_roll xs k = rotate_buckets xs k"
proof (cases "xs = []")
  case True
  then show ?thesis by (simp add: np_roll_def rotate_buckets_def)
next
  case False
  then have r: "k mod length xs < length xs" by simp
  show ?thesis
  proof (rule nth_equalityI)
    show "length (np_roll xs k) = length (rotate_buckets xs k)"
      using False r by (simp add: np_roll_def rotate_buckets_def)
  next
    fix t assume "t < length (np_roll xs k)"
    then have t: "t < length xs" using False r by (simp add: np_roll_def)
    have "np_roll xs k ! t = xs ! ((t + length xs - k mod length xs) mod length xs)"
      using False roll_nth [OF r t] by (simp only: np_roll_def if_False)
    also have "\<dots> = rotate_buckets xs k ! t"
      using t by (simp only: rotate_buckets_def nth_map length_upt minus_nat.diff_0 nth_upt add_0)
    finally show "np_roll xs k ! t = rotate_buckets xs k ! t" .
  qed
qed

text \<open>
  The direction of the rotation: bucket \<open>t\<close> of a histogram is bucket
  \<open>(t + k) mod D\<close> of the rotated one.
\<close>

lemma rotate_buckets_nth:
  assumes "t < length h"
  shows "rotate_buckets h k ! ((t + k) mod length h) = h ! t"
proof -
  define n where "n = length h"
  define r where "r = k mod n"
  from assms have t: "t < n" by (simp add: n_def)
  then have n: "0 < n" by simp
  then have r: "r < n" by (simp add: r_def)
  have tk: "(t + k) mod n = (t + r) mod n"
    unfolding r_def by (simp add: mod_add_right_eq)
  have inv: "((t + r) mod n + n - r) mod n = t"
  proof (cases "t + r < n")
    case True
    then have "(t + r) mod n + n - r = t + n" by simp
    then have "((t + r) mod n + n - r) mod n = (t + n) mod n" by (rule arg_cong)
    also from t have "\<dots> = t" by simp
    finally show ?thesis .
  next
    case False
    then have "t + r = (t + r - n) + n" by simp
    then have "(t + r) mod n = (t + r - n) mod n" by (metis mod_add_self2)
    also from t r have "t + r - n < n" by arith
    then have "(t + r - n) mod n = t + r - n" by (rule mod_less)
    finally have m: "(t + r) mod n = t + r - n" .
    from False have "t + r - n + n - r = t" by arith
    then have "((t + r) mod n + n - r) mod n = t mod n" by (simp only: m)
    also from t have "\<dots> = t" by simp
    finally show ?thesis .
  qed
  have lt: "(t + r) mod n < n" using n by simp
  have "rotate_buckets h k ! ((t + r) mod n) = h ! ((((t + r) mod n) + n - r) mod n)"
    unfolding rotate_buckets_def n_def [symmetric] r_def [symmetric]
    using lt by (simp only: n_def nth_map length_upt minus_nat.diff_0 nth_upt add_0)
  then have "rotate_buckets h k ! ((t + k) mod n) = h ! t"
    by (simp only: tk inv)
  then show ?thesis by (simp only: n_def)
qed

lemma emap_append:
  "emap f (xs @ ys) = ebind (emap f xs) (\<lambda>as. ebind (emap f ys) (\<lambda>bs. Inr (as @ bs)))"
proof (induction xs)
  case Nil
  show ?case by (cases "emap f ys") simp_all
next
  case (Cons x xs)
  show ?case
  proof (cases "f x")
    case (Inl e) then show ?thesis by simp
  next
    case fx: (Inr y)
    show ?thesis
    proof (cases "emap f xs")
      case (Inl e) with fx Cons show ?thesis by simp
    next
      case (Inr zs)
      with fx Cons show ?thesis by (cases "emap f ys") simp_all
    qed
  qed
qed

lemma emap_map: "emap f (map g xs) = emap (\<lambda>x. f (g x)) xs"
  by (induction xs) simp_all

lemma emap_cong: "(\<And>x. x \<in> set xs \<Longrightarrow> f x = g x) \<Longrightarrow> emap f xs = emap g xs"
  by (induction xs) simp_all

lemma for_loop_cong:
  "(\<And>x s. x \<in> set xs \<Longrightarrow> f x s = g x s) \<Longrightarrow> for_loop xs f s = for_loop xs g s"
proof (induction xs arbitrary: s)
  case Nil show ?case by simp
next
  case (Cons x xs)
  have "for_loop xs f = for_loop xs g"
    using Cons by (intro ext) simp
  with Cons.prems show ?case by simp
qed

lemma for_loop_sum:
  "for_loop xs (\<lambda>x s. ebind (f x) (\<lambda>d. Inr (fl_add s d))) s0 =
   ebind (emap f xs) (\<lambda>ds. Inr (foldl fl_add s0 ds))"
proof (induction xs arbitrary: s0)
  case Nil show ?case by simp
next
  case (Cons x xs)
  show ?case
  proof (cases "f x")
    case (Inl e) then show ?thesis by simp
  next
    case (Inr d)
    then show ?thesis using Cons [of "fl_add s0 d"] by (cases "emap f xs") simp_all
  qed
qed

lemma for_loop_nested_sum:
  "for_loop xs (\<lambda>i s. ebind (emap (g i) (js i)) (\<lambda>ds. Inr (foldl fl_add s ds))) s0 =
   ebind (emap (\<lambda>(i, j). g i j) (concat (map (\<lambda>i. map (Pair i) (js i)) xs)))
     (\<lambda>ds. Inr (foldl fl_add s0 ds))"
proof (induction xs arbitrary: s0)
  case Nil show ?case by simp
next
  case (Cons x xs)
  show ?case
  proof (cases "emap (g x) (js x)")
    case (Inl e) then show ?thesis by (simp add: emap_append emap_map)
  next
    case (Inr ds)
    then show ?thesis
      using Cons [of "foldl fl_add s0 ds"]
      by (cases "emap (\<lambda>(i, j). g i j) (concat (map (\<lambda>i. map (Pair i) (js i)) xs))")
         (simp_all add: emap_append emap_map)
  qed
qed

lemma permutations_r_sound:
  "distinct pool \<Longrightarrow> p \<in> set (permutations_r r pool) \<Longrightarrow>
     length p = r \<and> distinct p \<and> set p \<subseteq> set pool"
proof (induction r arbitrary: pool p)
  case 0
  then show ?case by simp
next
  case (Suc r)
  from Suc.prems(2) obtain y q where y: "y \<in> set pool" and q: "q \<in> set (permutations_r r (remove1 y pool))"
    and p: "p = y # q"
    by auto
  from Suc.prems(1) have d: "distinct (remove1 y pool)" by simp
  from Suc.IH [OF d q] have "length q = r" "distinct q" "set q \<subseteq> set (remove1 y pool)"
    by simp_all
  with Suc.prems(1) y p show ?case by auto
qed

lemma permutations_r_complete:
  "distinct pool \<Longrightarrow> length p = r \<Longrightarrow> distinct p \<Longrightarrow> set p \<subseteq> set pool \<Longrightarrow>
     p \<in> set (permutations_r r pool)"
proof (induction r arbitrary: pool p)
  case 0
  then show ?case by simp
next
  case (Suc r)
  from Suc.prems(2) obtain y q where p: "p = y # q" and lq: "length q = r"
    by (cases p) auto
  from Suc.prems(3,4) p have y: "y \<in> set pool" and dq: "distinct q" and "y \<notin> set q"
    and "set q \<subseteq> set pool" by auto
  with Suc.prems(1) have sub: "set q \<subseteq> set (remove1 y pool)" by auto
  from Suc.prems(1) have d: "distinct (remove1 y pool)" by simp
  from Suc.IH [OF d lq dq sub] have "q \<in> set (permutations_r r (remove1 y pool))" .
  with y p show ?case by auto
qed

lemma permutations_upt:
  "p \<in> set (permutations [0..<n]) \<longleftrightarrow> length p = n \<and> distinct p \<and> set p \<subseteq> {0..<n}"
proof
  assume "p \<in> set (permutations [0..<n])"
  then have "p \<in> set (permutations_r n [0..<n])" by (simp add: permutations_def)
  with permutations_r_sound [of "[0..<n]" p n]
  show "length p = n \<and> distinct p \<and> set p \<subseteq> {0..<n}" by simp
next
  assume "length p = n \<and> distinct p \<and> set p \<subseteq> {0..<n}"
  with permutations_r_complete [of "[0..<n]" p n]
  show "p \<in> set (permutations [0..<n])" by (simp add: permutations_def)
qed

lemma dict_set_map_of:
  assumes "k \<noteq> NaN"
  shows "map_of (dict_set d k v) = (map_of d)(k \<mapsto> v)"
proof (cases "k \<in> fst ` set d")
  case False
  then have "map_of d k = None" by (simp add: map_of_eq_None_iff)
  then have "map_of (d @ [(k, v)]) = (map_of d)(k \<mapsto> v)"
    by (auto simp add: map_add_def fun_eq_iff split: option.splits)
  with False show ?thesis by (simp add: dict_set_def)
next
  case True
  then have in_dom: "map_of d k \<noteq> None" by (simp add: map_of_eq_None_iff)
  have "map_of (map (\<lambda>kv. if fst kv = k then (k, v) else kv) d) x =
      (if x = k then map_option (\<lambda>u. v) (map_of d k) else map_of d x)" for x
    by (induction d) auto
  with in_dom have "map_of (map (\<lambda>kv. if fst kv = k then (k, v) else kv) d) = (map_of d)(k \<mapsto> v)"
    by (auto simp add: fun_eq_iff)
  with True assms show ?thesis by (simp add: dict_set_def)
qed

lemma dict_set_map_fst:
  "map fst (dict_set d k v) = (if k \<noteq> NaN \<and> k \<in> fst ` set d then map fst d else map fst d @ [k])"
proof -
  have "map fst (map (\<lambda>kv. if fst kv = k then (k, v) else kv) d) = map fst d"
    by (induction d) auto
  then show ?thesis by (simp add: dict_set_def)
qed

lemma dict_set_distinct:
  "k \<noteq> NaN \<Longrightarrow> distinct (map fst d) \<Longrightarrow> distinct (map fst (dict_set d k v))"
  by (simp add: dict_set_map_fst)

lemma dict_set_keys: "set (map fst (dict_set d k v)) = insert k (set (map fst d))"
  by (simp only: dict_set_map_fst) auto

lemma dict_build:
  assumes "\<forall>x\<in>set xs. key x \<noteq> NaN"
  shows "map_of (foldl (\<lambda>d x. dict_set d (key x) (val x)) [] xs) = map_of (rev (map (\<lambda>x. (key x, val x)) xs))
       \<and> distinct (map fst (foldl (\<lambda>d x. dict_set d (key x) (val x)) [] xs))
       \<and> set (map fst (foldl (\<lambda>d x. dict_set d (key x) (val x)) [] xs)) = key ` set xs"
  using assms
proof (induction xs rule: rev_induct)
  case Nil
  show ?case by simp
next
  case (snoc x xs)
  then have IH: "map_of (foldl (\<lambda>d x. dict_set d (key x) (val x)) [] xs) = map_of (rev (map (\<lambda>x. (key x, val x)) xs))"
    "distinct (map fst (foldl (\<lambda>d x. dict_set d (key x) (val x)) [] xs))"
    "set (map fst (foldl (\<lambda>d x. dict_set d (key x) (val x)) [] xs)) = key ` set xs"
    and k: "key x \<noteq> NaN"
    by simp_all
  show ?case
    using k IH by (simp add: dict_set_map_of dict_set_distinct dict_set_keys del: set_map)
qed

lemma py_min_fold:
  assumes "\<forall>x\<in>set (e # es). \<exists>r. fst x = Fin r"
  shows "foldl (\<lambda>best x. if fl_less (fst x) (fst best) then x else best) e es \<in> set (e # es) \<and>
         (\<forall>x\<in>set (e # es). \<not> fl_less (fst x)
            (fst (foldl (\<lambda>best x. if fl_less (fst x) (fst best) then x else best) e es)))"
  using assms
proof (induction es arbitrary: e)
  case Nil
  then show ?case by auto
next
  case (Cons y ys)
  let ?step = "\<lambda>best x. if fl_less (fst x) (fst best) then x else best"
  let ?e' = "?step e y"
  from Cons.prems obtain re ry where re: "fst e = Fin re" and ry: "fst y = Fin ry"
    by auto
  have fin': "\<forall>x\<in>set (?e' # ys). \<exists>r. fst x = Fin r"
    using Cons.prems by auto
  from Cons.IH [OF fin'] have mem: "foldl ?step ?e' ys \<in> set (?e' # ys)"
    and least: "\<forall>x\<in>set (?e' # ys). \<not> fl_less (fst x) (fst (foldl ?step ?e' ys))"
    by blast+
  from mem fin' obtain rm where rm: "fst (foldl ?step ?e' ys) = Fin rm" by blast
  from least have e': "\<not> fl_less (fst ?e') (Fin rm)" by (simp add: rm)
  have "\<not> fl_less (fst e) (Fin rm)" "\<not> fl_less (fst y) (Fin rm)"
    using e' re ry by (auto split: if_splits)
  with least rm have "\<forall>x\<in>set (e # y # ys). \<not> fl_less (fst x) (fst (foldl ?step ?e' ys))"
    by simp
  moreover from mem have "foldl ?step ?e' ys \<in> set (e # y # ys)" by auto
  ultimately show ?case by simp
qed

lemma py_min_entry_finite:
  assumes "d \<noteq> []" and "\<forall>x\<in>set d. \<exists>r. fst x = Fin r"
  shows "\<exists>r v. py_min_entry d = Inr (Fin r, v) \<and> (Fin r, v) \<in> set d \<and>
           (\<forall>r' v'. (Fin r', v') \<in> set d \<longrightarrow> r \<le> r')"
proof -
  from assms(1) obtain e es where d: "d = e # es" by (cases d) auto
  let ?m = "foldl (\<lambda>best x. if fl_less (fst x) (fst best) then x else best) e es"
  from py_min_fold [of e es] assms(2) d have mem: "?m \<in> set d"
    and least: "\<forall>x\<in>set d. \<not> fl_less (fst x) (fst ?m)" by blast+
  from mem assms(2) obtain r where r: "fst ?m = Fin r" by blast
  have "?m = (fst ?m, snd ?m)" by simp
  with r have m: "?m = (Fin r, snd ?m)" by simp
  have le: "r \<le> r'" if "(Fin r', v') \<in> set d" for r' v'
  proof -
    from least that have "\<not> fl_less (fst (Fin r', v')) (fst ?m)" by blast
    with r show ?thesis by simp
  qed
  have "py_min_entry d = Inr ?m" by (simp add: d)
  with m have "py_min_entry d = Inr (Fin r, snd ?m)" by simp
  moreover from mem m have "(Fin r, snd ?m) \<in> set d" by simp
  ultimately show ?thesis using le by blast
qed


lemma emap_Inr: "(\<And>x. x \<in> set xs \<Longrightarrow> f x = Inr (g x)) \<Longrightarrow> emap f xs = Inr (map g xs)"
  by (induction xs) simp_all

lemma for_loop_pure:
  "(\<And>x s. x \<in> set xs \<Longrightarrow> body x s = Inr (g s x)) \<Longrightarrow> for_loop xs body s = Inr (foldl g s xs)"
  by (induction xs arbitrary: s) simp_all

lemma foldl_pair_sums:
  "foldl (\<lambda>(sh, sp) i. (fl_add sh (s i), foldl fl_add sp (map (t i) (js i)))) (a, b) xs =
   (foldl fl_add a (map s xs), foldl fl_add b (concat (map (\<lambda>i. map (t i) (js i)) xs)))"
  by (induction xs arbitrary: a b) simp_all

section \<open>The spatial loop\<close>

lemma for_loop_rule_aux:
  assumes "for_loop ys body s = Inr s'" and "P pre s" and "xs = pre @ ys"
    and step: "\<And>pre x post s t. xs = pre @ x # post \<Longrightarrow> P pre s \<Longrightarrow> body x s = Inr t \<Longrightarrow> P (pre @ [x]) t"
  shows "P xs s'"
  using assms(1,2,3)
proof (induction ys arbitrary: s pre)
  case Nil
  then show ?case by simp
next
  case (Cons y ys)
  from Cons.prems(1) obtain t where t: "body y s = Inr t" and rest: "for_loop ys body t = Inr s'"
    by (cases "body y s") simp_all
  from Cons.prems(3) have xs: "xs = pre @ y # ys" .
  from step [OF xs Cons.prems(2) t] have "P (pre @ [y]) t" .
  moreover from xs have "xs = (pre @ [y]) @ ys" by simp
  ultimately show ?case using rest Cons.IH by blast
qed

lemma for_loop_rule:
  assumes "for_loop xs body s = Inr s'" and "P [] s"
    and "\<And>pre x post s t. xs = pre @ x # post \<Longrightarrow> P pre s \<Longrightarrow> body x s = Inr t \<Longrightarrow> P (pre @ [x]) t"
  shows "P xs s'"
  using for_loop_rule_aux [of xs body s s' P "[]" xs] assms by simp

lemma for_loop_total_aux:
  assumes "P pre s" and "xs = pre @ ys"
    and step: "\<And>pre x post s. xs = pre @ x # post \<Longrightarrow> P pre s \<Longrightarrow> \<exists>t. body x s = Inr t \<and> P (pre @ [x]) t"
  shows "\<exists>s'. for_loop ys body s = Inr s' \<and> P xs s'"
  using assms(1,2)
proof (induction ys arbitrary: s pre)
  case Nil
  then show ?case by simp
next
  case (Cons y ys)
  from Cons.prems(2) have xs: "xs = pre @ y # ys" .
  from step [OF xs Cons.prems(1)] obtain t where t: "body y s = Inr t" and P: "P (pre @ [y]) t"
    by blast
  from xs have "xs = (pre @ [y]) @ ys" by simp
  from Cons.IH [OF P this] obtain s' where "for_loop ys body t = Inr s'" "P xs s'" by blast
  with t show ?case by simp
qed

lemma for_loop_total:
  assumes "P [] s"
    and "\<And>pre x post s. xs = pre @ x # post \<Longrightarrow> P pre s \<Longrightarrow> \<exists>t. body x s = Inr t \<and> P (pre @ [x]) t"
  shows "\<exists>s'. for_loop xs body s = Inr s' \<and> P xs s'"
  using for_loop_total_aux [of P "[]" s xs xs body] assms by simp

lemma upt_split:
  assumes "[0..<n] = pre @ x # post"
  shows "pre = [0..<x] \<and> x < n \<and> post = [Suc x..<n]"
proof -
  have "length [0..<n] = length (pre @ x # post)" by (simp only: assms)
  then have len: "length pre < n" by simp
  have "[0..<n] ! length pre = x" by (simp only: assms nth_append_length)
  with len have x: "x = length pre" by simp
  have "take (length pre) [0..<n] = pre" by (simp only: assms) simp
  with len x have pre: "pre = [0..<x]" by (simp add: take_upt)
  have "drop (Suc (length pre)) [0..<n] = post" by (simp only: assms) simp
  with x have "post = [Suc x..<n]" by (simp add: drop_upt)
  with pre x len show ?thesis by simp
qed

lemma FHD_getitem_wf:
  "FHD_wf A \<Longrightarrow> i < N A \<Longrightarrow> j < N A \<Longrightarrow> FHD_getitem A i j = Inr (vec (cell A i j))"
  by (simp add: FHD_wf_def FHD_getitem_def vec_def cell_def)

lemma cell_length:
  "FHD_wf A \<Longrightarrow> i < N A \<Longrightarrow> j < N A \<Longrightarrow> length (cell A i j) = num_dirs A"
  by (simp add: FHD_wf_def cell_def list_all_length)

lemma hist_distance_wf:
  assumes "FHD_wf A" "FHD_wf B" "i < N A" "j < N A" "k < N B" "l < N B"
  shows "hist_distance A B metric i j k l =
         hdist_distance (vec (cell A i j)) (vec (cell B k l)) metric True"
  using assms by (simp add: hist_distance_def FHD_getitem_wf)

lemma hist_distance_rolled_wf:
  assumes "FHD_wf A" "FHD_wf B" "i < N A" "j < N A" "k < N B" "l < N B"
  shows "hist_distance_rolled A B metric i j k l pivot =
         hdist_distance (vec (cell A i j)) (vec (rotate_buckets (cell B k l) pivot)) metric True"
  using assms by (simp add: hist_distance_rolled_def FHD_getitem_wf np_roll_rotate_buckets vec_def)

lemma spatial_step_term:
  assumes "FHD_wf A" "FHD_wf B" "N A = N B" "i < N A" "j < N A"
    and "matching i = Some (m i)" "matching j = Some (m j)" "m i < N A" "m j < N A"
  shows "spatial_step A B metric matching i j s =
         ebind (spatial_term A B metric m (i, j)) (\<lambda>d. Inr (fl_add s d))"
  using assms
  by (simp add: spatial_step_def dict_get_def spatial_term_def hist_distance_wf
      hist_distance_rolled_wf)

lemma set_index_pairs: "(i, j) \<in> set (index_pairs n) \<longleftrightarrow> i < j \<and> j < n"
proof
  assume "(i, j) \<in> set (index_pairs n)"
  then show "i < j \<and> j < n" by (auto simp add: index_pairs_def)
next
  assume a: "i < j \<and> j < n"
  then have "i \<in> set [0..<n]" "(i, j) \<in> set (map (Pair i) [i + 1..<n])" by auto
  then show "(i, j) \<in> set (index_pairs n)" unfolding index_pairs_def by auto
qed

lemma matched_spatial_distance_terms:
  assumes wf: "FHD_wf A" "FHD_wf B" "N A = N B"
    and m: "\<And>i. i < N A \<Longrightarrow> matching i = Some (m i) \<and> m i < N A"
  shows "matched_spatial_distance A B metric matching (N A) =
         ebind (emap (spatial_term A B metric m) (index_pairs (N A))) (\<lambda>ts. Inr (np_sum ts))"
proof -
  have inner: "for_loop [i + 1..<N A] (spatial_step A B metric matching i) s =
      ebind (emap (\<lambda>j. spatial_term A B metric m (i, j)) [i + 1..<N A])
        (\<lambda>ds. Inr (foldl fl_add s ds))" if "i < N A" for i s
  proof -
    have "for_loop [i + 1..<N A] (spatial_step A B metric matching i) s =
        for_loop [i + 1..<N A]
          (\<lambda>j s. ebind (spatial_term A B metric m (i, j)) (\<lambda>d. Inr (fl_add s d))) s"
      using that m by (intro for_loop_cong spatial_step_term wf) simp_all
    then show ?thesis by (simp only: for_loop_sum)
  qed
  have "matched_spatial_distance A B metric matching (N A) =
      for_loop [0..<N A]
        (\<lambda>i s. ebind (emap (\<lambda>j. spatial_term A B metric m (i, j)) [i + 1..<N A])
           (\<lambda>ds. Inr (foldl fl_add s ds))) (Fin 0)"
    unfolding matched_spatial_distance_def using inner by (intro for_loop_cong) simp
  also have "\<dots> = ebind (emap (\<lambda>(i, j). spatial_term A B metric m (i, j))
        (concat (map (\<lambda>i. map (Pair i) [i + 1..<N A]) [0..<N A])))
      (\<lambda>ds. Inr (foldl fl_add (Fin 0) ds))"
    by (rule for_loop_nested_sum)
  finally show ?thesis by (simp add: index_pairs_def np_sum_def)
qed

section \<open>Ranges of the matchings\<close>

lemma dict_set_values: "snd ` set (dict_set d k v) \<subseteq> insert v (snd ` set d)"
  by (auto simp add: dict_set_def split: if_splits)

lemma py_min_fold_mem:
  "foldl (\<lambda>best x. if fl_less (fst x) (fst best) then x else best) e es \<in> set (e # es)"
proof (induction es arbitrary: e)
  case Nil
  show ?case by simp
next
  case (Cons y ys)
  from Cons [of "if fl_less (fst y) (fst e) then y else e"] show ?case
    by (auto split: if_splits)
qed

lemma py_min_entry_mem: "py_min_entry d = Inr e \<Longrightarrow> e \<in> set d"
proof (cases d)
  case Nil
  assume "py_min_entry d = Inr e"
  with Nil show ?thesis by simp
next
  case (Cons x xs)
  assume "py_min_entry d = Inr e"
  with Cons have "e = foldl (\<lambda>best x. if fl_less (fst x) (fst best) then x else best) x xs"
    by simp
  with py_min_fold_mem [of x xs] Cons show ?thesis by simp
qed

lemma greedy_dists_values:
  assumes "for_loop choices (\<lambda>j dists.
      ebind (hist_distance A B metric i i j j) (\<lambda>d. Inr (dict_set dists d j))) [] = Inr dists"
  shows "snd ` set dists \<subseteq> set choices"
proof (rule for_loop_rule [OF assms, where P = "\<lambda>pre d. snd ` set d \<subseteq> set pre"])
  show "snd ` set [] \<subseteq> set []" by simp
next
  fix pre x post s t
  assume P: "snd ` set s \<subseteq> set pre"
    and body: "ebind (hist_distance A B metric i i x x) (\<lambda>d. Inr (dict_set s d x)) = Inr t"
  from body obtain d where "t = dict_set s d x"
    by (cases "hist_distance A B metric i i x x") auto
  with P dict_set_values [of s d x] show "snd ` set t \<subseteq> set (pre @ [x])" by fastforce
qed

lemma greedy_step_range:
  assumes "greedy_step A B metric i (dst, m, choices) = Inr st"
  shows "\<exists>d jmin. jmin \<in> set choices \<and> st = (d, m(i \<mapsto> jmin), remove1 jmin choices)"
proof -
  from assms obtain dists where dists: "for_loop choices (\<lambda>j dists.
      ebind (hist_distance A B metric i i j j) (\<lambda>d. Inr (dict_set dists d j))) [] = Inr dists"
    and rest: "ebind (py_min_entry dists) (\<lambda>(min_dist, jmin).
            Inr (fl_add dst min_dist, m(i \<mapsto> jmin), remove1 jmin choices)) = Inr st"
    unfolding greedy_step_def
    by (cases "for_loop choices (\<lambda>j dists.
      ebind (hist_distance A B metric i i j j) (\<lambda>d. Inr (dict_set dists d j))) []") simp_all
  from rest obtain md jmin where e: "py_min_entry dists = Inr (md, jmin)"
    and st: "st = (fl_add dst md, m(i \<mapsto> jmin), remove1 jmin choices)"
    by (cases "py_min_entry dists") auto
  from py_min_entry_mem [OF e] greedy_dists_values [OF dists] have "jmin \<in> set choices"
    by force
  with st show ?thesis by blast
qed

lemma greedy_range:
  assumes "greedy_shape_matching A B metric = Inr (s, m)"
  shows "i < N A \<Longrightarrow> \<exists>j<N A. m i = Some j"
proof -
  from assms have eq: "N A = N B"
    by (auto simp add: greedy_shape_matching_def split: if_splits)
  from assms eq obtain st where loop:
    "for_loop [0..<N A] (greedy_step A B metric) (Fin 0, Map.empty, [0..<N A]) = Inr st"
    and st: "(case st of (distance, matching, choices) \<Rightarrow> Inr (distance, matching)) = (Inr (s, m) :: error + (float64 \<times> (nat \<rightharpoonup> nat)))"
    unfolding greedy_shape_matching_def
    by (cases "for_loop [0..<N A] (greedy_step A B metric) (Fin 0, Map.empty, [0..<N A])") simp_all
  let ?P = "\<lambda>pre st. (\<forall>i\<in>set pre. \<exists>j<N A. fst (snd st) i = Some j) \<and> set (snd (snd st)) \<subseteq> {0..<N A}"
  have "?P [0..<N A] st"
  proof (rule for_loop_rule [OF loop, where P = ?P])
    show "?P [] (Fin 0, Map.empty, [0..<N A])" by simp
  next
    fix pre x post s t
    assume split: "[0..<N A] = pre @ x # post" and P: "?P pre s"
      and body: "greedy_step A B metric x s = Inr t"
    obtain d0 m0 c0 where s: "s = (d0, m0, c0)" by (cases s) auto
    from greedy_step_range [OF body [unfolded s]] obtain d jmin
      where j: "jmin \<in> set c0" and t: "t = (d, m0(x \<mapsto> jmin), remove1 jmin c0)" by blast
    from P s j have jn: "jmin < N A" by auto
    have "set (remove1 jmin c0) \<subseteq> set c0" by (rule set_remove1_subset)
    with P s t jn show "?P (pre @ [x]) t" by auto
  qed
  moreover from st have "fst (snd st) = m" by (cases st) auto
  moreover assume "i < N A"
  ultimately show ?thesis by auto
qed

lemma matching_of_list:
  "foldl (\<lambda>m i. m(i \<mapsto> best ! i)) Map.empty [0..<n] = (\<lambda>i. if i < n then Some (best ! i) else None)"
  by (induction n) (auto simp add: fun_eq_iff)

lemma foldl_dict_values:
  "snd ` set (foldl (\<lambda>ms p. dict_set ms (k p) p) d ps) \<subseteq> snd ` set d \<union> set ps"
proof (induction ps arbitrary: d)
  case Nil
  show ?case by simp
next
  case (Cons p ps)
  from Cons [of "dict_set d (k p) p"] dict_set_values [of d "k p" p] show ?case by auto
qed

lemma optimal_range:
  assumes "optimal_shape_matching A B metric = Inr (s, m)"
  shows "\<exists>best\<in>set (permutations [0..<N A]). m = (\<lambda>i. if i < N A then Some (best ! i) else None)"
proof -
  from assms have eq: "N A = N B"
    by (auto simp add: optimal_shape_matching_def split: if_splits)
  from assms eq obtain distances where
    rest: "ebind (py_min_entry (foldl (\<lambda>ms permutation.
                      dict_set ms (permutation_distance distances permutation) permutation)
                    [] (permutations [0..<N A])))
          (\<lambda>(min_distance, best_permutation).
             Inr (min_distance,
                  foldl (\<lambda>m i. m(i \<mapsto> best_permutation ! i)) Map.empty [0..<N A])) = Inr (s, m)"
    unfolding optimal_shape_matching_def
    by (cases "emap (\<lambda>i. emap (\<lambda>j. hist_distance A B metric i i j j) [0..<N A]) [0..<N A]") simp_all
  then obtain md best where e: "py_min_entry (foldl (\<lambda>ms permutation.
                      dict_set ms (permutation_distance distances permutation) permutation)
                    [] (permutations [0..<N A])) = Inr (md, best)"
    and m: "m = foldl (\<lambda>m i. m(i \<mapsto> best ! i)) Map.empty [0..<N A]"
    by (cases "py_min_entry (foldl (\<lambda>ms permutation.
                      dict_set ms (permutation_distance distances permutation) permutation)
                    [] (permutations [0..<N A]))") auto
  from py_min_entry_mem [OF e]
    foldl_dict_values [of "permutation_distance distances" "[]" "permutations [0..<N A]"]
  have "best \<in> set (permutations [0..<N A])" by force
  with m show ?thesis by (auto simp add: matching_of_list)
qed

lemma permutation_nth_range:
  assumes "p \<in> set (permutations [0..<n])" "i < n"
  shows "p ! i < n"
proof -
  from assms(1) have "length p = n" "set p \<subseteq> {0..<n}" by (simp_all add: permutations_upt)
  with assms(2) have "p ! i \<in> {0..<n}" by (metis nth_mem subsetD)
  then show ?thesis by simp
qed

section \<open>The descriptor distance\<close>

lemma ebind_assoc: "ebind (ebind m f) g = ebind m (\<lambda>x. ebind (f x) g)"
  by (cases m) simp_all

lemma greedy_retained_range:
  assumes "greedy_retained A B metric = Inr (sh, m)" and "N A = N B" and "i < N A"
  shows "\<exists>j<N A. m i = Some j"
proof -
  from assms(1) obtain ab ba where ab: "greedy_shape_matching A B metric = Inr ab"
    and ba: "greedy_shape_matching B A metric = Inr ba"
    and r: "(sh, m) = (if fl_le (fst ab) (fst ba) then ab else ba)"
    unfolding greedy_retained_def
    by (cases "greedy_shape_matching A B metric"; cases "greedy_shape_matching B A metric") auto
  show ?thesis
  proof (cases "fl_le (fst ab) (fst ba)")
    case True
    with r ab have "greedy_shape_matching A B metric = Inr (sh, m)" by simp
    from greedy_range [OF this assms(3)] show ?thesis .
  next
    case False
    with r ba have "greedy_shape_matching B A metric = Inr (sh, m)" by simp
    from greedy_range [OF this, of i] assms(2,3) show ?thesis by simp
  qed
qed

text \<open>
  Claim C1. For descriptors of equal size and the matching \<open>m\<close> that the greedy branch
  retains or the optimal search returns, \<open>m\<close> maps every layer index to a layer index,
  and the spatial distance of \<open>distance\<close> is the sum, over the pairs \<open>i < j\<close> in loop
  order, of the terms of \<open>spatial_term\<close>: the distance of \<open>A[i, j]\<close> to \<open>B[m i, m j]\<close>
  when \<open>m i \<le> m j\<close>, and to \<open>B[m j, m i]\<close> rotated by \<open>num_dirs div 2\<close> buckets
  otherwise; the first term that raises ends the computation with its error.
\<close>

theorem spatial_reindexing:
  assumes "FHD_wf A" and "FHD_wf B" and "N A = N B"
    and "matching = ''greedy'' \<and> greedy_retained A B metric = Inr (sh, m) \<or>
         matching = ''optimal'' \<and> optimal_shape_matching A B metric = Inr (sh, m)"
  shows "\<exists>f. (\<forall>i<N A. m i = Some (f i) \<and> f i < N A) \<and>
           strategy_distances A B metric matching =
             ebind (emap (spatial_term A B metric f) (index_pairs (N A)))
               (\<lambda>terms. Inr (sh, np_sum terms))"
proof -
  have range: "\<exists>j<N A. m i = Some j" if "i < N A" for i
    using assms(4)
  proof
    assume "matching = ''greedy'' \<and> greedy_retained A B metric = Inr (sh, m)"
    then show ?thesis using greedy_retained_range assms(3) that by blast
  next
    assume "matching = ''optimal'' \<and> optimal_shape_matching A B metric = Inr (sh, m)"
    then obtain best where "best \<in> set (permutations [0..<N A])"
      "m = (\<lambda>i. if i < N A then Some (best ! i) else None)"
      using optimal_range by blast
    with that show ?thesis by (simp add: permutation_nth_range)
  qed
  define f where "f = (\<lambda>i. the (m i))"
  have f: "m i = Some (f i) \<and> f i < N A" if "i < N A" for i
    using range [OF that] by (auto simp add: f_def)
  have sp: "matched_spatial_distance A B metric m (N A) =
      ebind (emap (spatial_term A B metric f) (index_pairs (N A))) (\<lambda>ts. Inr (np_sum ts))"
    using assms(1,2,3) f by (rule matched_spatial_distance_terms)
  have "strategy_distances A B metric matching =
      ebind (matched_spatial_distance A B metric m (N A)) (\<lambda>sp. Inr (sh, sp))"
    using assms(4) by (auto simp add: strategy_distances_def)
  also have "\<dots> = ebind (emap (spatial_term A B metric f) (index_pairs (N A)))
               (\<lambda>terms. Inr (sh, np_sum terms))"
    by (simp add: sp ebind_assoc)
  finally show ?thesis using f by blast
qed

text \<open>
  The identity matching, when every comparison returns a value: the shape distance is
  the sum over the layers of the distances of \<open>A[i, i]\<close> to \<open>B[i, i]\<close>, the spatial
  distance the sum over the pairs \<open>i < j\<close> of the distances of \<open>A[i, j]\<close> to \<open>B[i, j]\<close>.
\<close>

lemma default_distances_sums:
  fixes s :: "nat \<Rightarrow> float64" and t :: "nat \<Rightarrow> nat \<Rightarrow> float64"
  assumes s: "\<And>i. i < n \<Longrightarrow> hist_distance A B metric i i i i = Inr (s i)"
    and t: "\<And>i j. i < j \<Longrightarrow> j < n \<Longrightarrow> hist_distance A B metric i j i j = Inr (t i j)"
  shows "default_distances A B metric n =
         Inr (np_sum (map s [0..<n]), np_sum (map (\<lambda>(i, j). t i j) (index_pairs n)))"
proof -
  let ?g = "\<lambda>(sh :: float64, sp :: float64) i.
              (fl_add sh (s i), foldl fl_add sp (map (t i) [i + 1..<n]))"
  have inner: "for_loop [i + 1..<n] (\<lambda>j sp.
        ebind (hist_distance A B metric i j i j) (\<lambda>d'. Inr (fl_add sp d'))) sp =
      Inr (foldl fl_add sp (map (t i) [i + 1..<n]))" for i sp
  proof -
    have "emap (\<lambda>j. hist_distance A B metric i j i j) [i + 1..<n] = Inr (map (t i) [i + 1..<n])"
      by (rule emap_Inr) (simp add: t)
    then show ?thesis by (simp add: for_loop_sum)
  qed
  have "default_distances A B metric n = Inr (foldl ?g (Fin 0, Fin 0) [0..<n])"
    unfolding default_distances_def
    by (rule for_loop_pure) (simp add: s inner [simplified] split: prod.splits)
  also have "foldl ?g (Fin 0, Fin 0) [0..<n] =
      (foldl fl_add (Fin 0) (map s [0..<n]),
       foldl fl_add (Fin 0) (concat (map (\<lambda>i. map (t i) [i + 1..<n]) [0..<n])))"
    by (rule foldl_pair_sums)
  also have "concat (map (\<lambda>i. map (t i) [i + 1..<n]) [0..<n]) =
      map (\<lambda>(i, j). t i j) (index_pairs n)"
    by (simp add: index_pairs_def map_concat comp_def)
  finally show ?thesis by (simp add: np_sum_def)
qed

text \<open>
  Claim C5. For descriptors of equal size: an \<open>alpha\<close> outside \<open>[0, 1]\<close> (NaN included)
  raises \<open>ValueError\<close>; for a valid matching strategy whose branch yields the shape
  distance and the spatial distance, the result is
  \<open>alpha * shape_distance + (1 - alpha) * spatial_distance\<close> for a given \<open>alpha\<close> in
  \<open>[0, 1]\<close>, and the same with \<open>alpha = 1 - 2 / (N + 1)\<close> when \<open>alpha\<close> is omitted
  (\<open>/\<close> is the true division of Python 3).
\<close>

theorem overall_distance_formula:
  assumes "N A = N B"
  shows "(\<not> (fl_le (Fin 0) al \<and> fl_le al (Fin 1)) \<longrightarrow>
            fhd_distance A B metric matching (Some al) = Inl ValueError) \<and>
         (matching \<in> set matchings \<and>
          strategy_distances A B metric matching = Inr (shape_distance, spatial_distance) \<longrightarrow>
            (fl_le (Fin 0) al \<and> fl_le al (Fin 1) \<longrightarrow>
               fhd_distance A B metric matching (Some al) =
                 Inr (fl_add (fl_mul al shape_distance)
                        (fl_mul (fl_sub (Fin 1) al) spatial_distance))) \<and>
            fhd_distance A B metric matching None =
              Inr (fl_add (fl_mul (Fin (1 - 2 / (real (N A) + 1))) shape_distance)
                     (fl_mul (fl_sub (Fin 1) (Fin (1 - 2 / (real (N A) + 1)))) spatial_distance)))"
  using assms by (simp add: fhd_distance_def add.commute)


lemma example_wf: "FHD_wf example_A" "FHD_wf example_B" "N example_A = N example_B"
  by code_simp+

theorem spatial_reindexing_witness:
  "\<exists>m f. optimal_shape_matching example_A example_B ''L1'' = Inr (Fin 2, m) \<and>
     m 0 = Some (f 0) \<and> m 1 = Some (f 1) \<and>
     strategy_distances example_A example_B ''L1'' ''optimal'' =
       ebind (emap (spatial_term example_A example_B ''L1'' f) (index_pairs (N example_A)))
         (\<lambda>terms. Inr (Fin 2, np_sum terms))"
proof -
  have "case optimal_shape_matching example_A example_B ''L1'' of
      Inl e \<Rightarrow> False | Inr r \<Rightarrow> fst r = Fin 2"
    by code_simp
  then obtain m where opt: "optimal_shape_matching example_A example_B ''L1'' = Inr (Fin 2, m)"
    by (cases "optimal_shape_matching example_A example_B ''L1''") auto
  have n: "N example_A = 2" by code_simp
  from spatial_reindexing [OF example_wf, of "''optimal''" "''L1''" "Fin 2" m] opt
  obtain f where f: "\<forall>i<N example_A. m i = Some (f i) \<and> f i < N example_A"
    and eq: "strategy_distances example_A example_B ''L1'' ''optimal'' =
       ebind (emap (spatial_term example_A example_B ''L1'' f) (index_pairs (N example_A)))
         (\<lambda>terms. Inr (Fin 2, np_sum terms))"
    by blast
  from f n have "m 0 = Some (f 0)" "m 1 = Some (f 1)" by simp_all
  with opt eq show ?thesis by blast
qed

theorem overall_distance_formula_witness:
  "fhd_distance example_A example_B ''L1'' ''default'' (Some (Fin 2)) = Inl ValueError \<and>
   fhd_distance example_A example_B ''L1'' ''default'' (Some (Fin (1 / 4))) = Inr (Fin (1 / 2)) \<and>
   fhd_distance example_A example_B ''L1'' ''default'' None = Inr (Fin (2 / 3))"
proof -
  have s: "strategy_distances example_A example_B ''L1'' ''default'' = Inr (Fin 2, Fin 0)"
    by code_simp
  have m: "''default'' \<in> set matchings"
    by (simp add: matchings_def)
  have n: "N example_A = 2" by code_simp
  from overall_distance_formula [OF example_wf(3), of "Fin 2" "''L1''" "''default''" "Fin 2" "Fin 0"]
  have 1: "fhd_distance example_A example_B ''L1'' ''default'' (Some (Fin 2)) = Inl ValueError"
    by simp
  from overall_distance_formula [OF example_wf(3), of "Fin (1 / 4)" "''L1''" "''default''" "Fin 2" "Fin 0"] s m n
  have 2: "fhd_distance example_A example_B ''L1'' ''default'' (Some (Fin (1 / 4))) = Inr (Fin (1 / 2))"
    and 3: "fhd_distance example_A example_B ''L1'' ''default'' None = Inr (Fin (2 / 3))"
    by simp_all
  from 1 2 3 show ?thesis by simp
qed

section \<open>The optimal matching\<close>

lemma shape_dist_finite:
  assumes "finite_shape_distances A B metric" "i < N A" "j < N B"
  shows "hist_distance A B metric i i j j = Inr (Fin (shape_dist A B metric i j))"
proof -
  from assms obtain r where "hist_distance A B metric i i j j = Inr (Fin r)"
    unfolding finite_shape_distances_def by blast
  then show ?thesis by (simp add: shape_dist_def)
qed

lemma foldl_fl_add_map_Fin:
  "(\<And>x. x \<in> set xs \<Longrightarrow> h x = Fin (g x)) \<Longrightarrow>
   foldl (\<lambda>acc x. fl_add acc (h x)) (Fin s) xs = Fin (s + sum_list (map g xs))"
  by (induction xs arbitrary: s) (simp_all add: add.assoc)

lemma in_set_enumerate_0: "(i, j) \<in> set (enumerate 0 p) \<Longrightarrow> i < length p \<and> j = p ! i"
  by (auto simp add: in_set_enumerate_eq)

lemma permutation_distance_snoc:
  "permutation_distance D (p @ [x]) = fl_add (permutation_distance D p) (D ! length p ! x)"
  by (simp add: permutation_distance_def enumerate_append_eq)

lemma matching_cost_snoc:
  "matching_cost A B metric (p @ [x]) = matching_cost A B metric p + shape_dist A B metric (length p) x"
  by (simp add: matching_cost_def enumerate_append_eq)

lemma permutation_distance_prefix:
  assumes D: "\<And>i j. i < n \<Longrightarrow> j < n \<Longrightarrow> D ! i ! j = Fin (shape_dist A B metric i j)"
  shows "length p \<le> n \<Longrightarrow> set p \<subseteq> {0..<n} \<Longrightarrow>
         permutation_distance D p = Fin (matching_cost A B metric p)"
proof (induction p rule: rev_induct)
  case Nil
  show ?case by (simp add: permutation_distance_def matching_cost_def)
next
  case (snoc x p)
  from snoc.prems have "length p < n" "x < n" by simp_all
  then have "D ! length p ! x = Fin (shape_dist A B metric (length p) x)" by (rule D)
  moreover from snoc have "permutation_distance D p = Fin (matching_cost A B metric p)" by simp
  ultimately show ?case
    by (simp only: permutation_distance_snoc matching_cost_snoc fl_add.simps)
qed

lemma permutation_distance_finite:
  assumes D: "\<And>i j. i < n \<Longrightarrow> j < n \<Longrightarrow> D ! i ! j = Fin (shape_dist A B metric i j)"
    and p: "p \<in> set (permutations [0..<n])"
  shows "permutation_distance D p = Fin (matching_cost A B metric p)"
proof -
  from p have "length p \<le> n" "set p \<subseteq> {0..<n}" by (simp_all add: permutations_upt)
  with D show ?thesis by (rule permutation_distance_prefix)
qed

lemma map_of_rev_last:
  assumes "map_of (rev (map (\<lambda>x. (key x, val x)) xs)) k = Some v"
  shows "\<exists>pre x post. xs = pre @ x # post \<and> key x = k \<and> val x = v \<and> (\<forall>y\<in>set post. key y \<noteq> k)"
  using assms
proof (induction xs rule: rev_induct)
  case Nil
  then show ?case by simp
next
  case (snoc x xs)
  show ?case
  proof (cases "key x = k")
    case True
    with snoc.prems have "val x = v" by simp
    with True have "xs @ [x] = xs @ x # [] \<and> key x = k \<and> val x = v \<and> (\<forall>y\<in>set []. key y \<noteq> k)"
      by simp
    then show ?thesis by blast
  next
    case False
    with snoc.prems have "map_of (rev (map (\<lambda>x. (key x, val x)) xs)) k = Some v" by simp
    from snoc.IH [OF this] obtain pre y post where
      "xs = pre @ y # post" "key y = k" "val y = v" "\<forall>z\<in>set post. key z \<noteq> k" by blast
    with False have "xs @ [x] = pre @ y # (post @ [x]) \<and> key y = k \<and> val y = v \<and>
        (\<forall>z\<in>set (post @ [x]). key z \<noteq> k)" by simp
    then show ?thesis by blast
  qed
qed

lemma dict_min_last:
  assumes "xs \<noteq> []"
  shows "\<exists>pre x post. py_min_entry (foldl (\<lambda>d x. dict_set d (Fin (cost x)) (val x)) [] xs) =
            Inr (Fin (cost x), val x) \<and>
          xs = pre @ x # post \<and> (\<forall>y\<in>set xs. cost x \<le> cost y) \<and>
          (\<forall>y\<in>set post. cost y \<noteq> cost x)"
proof -
  let ?D = "foldl (\<lambda>d x. dict_set d (Fin (cost x)) (val x)) [] xs"
  have fin: "\<forall>x\<in>set xs. Fin (cost x) \<noteq> NaN" by simp
  from dict_build [of xs "\<lambda>x. Fin (cost x)" val, OF fin]
  have mo: "map_of ?D = map_of (rev (map (\<lambda>x. (Fin (cost x), val x)) xs))"
    and dk: "distinct (map fst ?D)"
    and keys: "set (map fst ?D) = (\<lambda>x. Fin (cost x)) ` set xs"
    by blast+
  from keys assms have ne: "?D \<noteq> []" by auto
  have allfin: "\<forall>e\<in>set ?D. \<exists>r. fst e = Fin r"
  proof
    fix e assume "e \<in> set ?D"
    then have "fst e \<in> set (map fst ?D)" by simp
    with keys show "\<exists>r. fst e = Fin r" by auto
  qed
  from py_min_entry_finite [OF ne allfin] obtain r v where
    e: "py_min_entry ?D = Inr (Fin r, v)" and mem: "(Fin r, v) \<in> set ?D"
    and least: "\<forall>r' v'. (Fin r', v') \<in> set ?D \<longrightarrow> r \<le> r'" by blast
  from mem dk have "map_of ?D (Fin r) = Some v" by simp
  with mo have "map_of (rev (map (\<lambda>x. (Fin (cost x), val x)) xs)) (Fin r) = Some v" by simp
  from map_of_rev_last [OF this] obtain pre x post where
    xs: "xs = pre @ x # post" and kx: "Fin (cost x) = Fin r" and vx: "val x = v"
    and post: "\<forall>y\<in>set post. Fin (cost y) \<noteq> Fin r" by blast
  have "cost x \<le> cost y" if "y \<in> set xs" for y
  proof -
    from that keys have "Fin (cost y) \<in> fst ` set ?D" by auto
    then obtain v' where "(Fin (cost y), v') \<in> set ?D" by force
    with least kx show ?thesis by auto
  qed
  then have le: "\<forall>y\<in>set xs. cost x \<le> cost y" by blast
  from e kx vx have "py_min_entry ?D = Inr (Fin (cost x), val x)" by simp
  moreover from post kx have "\<forall>y\<in>set post. cost y \<noteq> cost x" by auto
  ultimately show ?thesis using xs le by blast
qed


lemma upt_in_permutations: "[0..<n] \<in> set (permutations [0..<n])"
  by (simp add: permutations_upt)

lemma optimal_finite:
  assumes "N A = N B" and "finite_shape_distances A B metric"
  shows "\<exists>pre best post.
      optimal_shape_matching A B metric =
        Inr (Fin (matching_cost A B metric best), matching_of (N A) best) \<and>
      permutations [0..<N A] = pre @ best # post \<and>
      (\<forall>p\<in>set (permutations [0..<N A]).
         matching_cost A B metric best \<le> matching_cost A B metric p) \<and>
      (\<forall>p\<in>set post. matching_cost A B metric p \<noteq> matching_cost A B metric best)"
proof -
  define n where "n = N A"
  define D where "D = map (\<lambda>i. map (\<lambda>j. Fin (shape_dist A B metric i j)) [0..<n]) [0..<n]"
  have row: "emap (\<lambda>j. hist_distance A B metric i i j j) [0..<n] =
      Inr (map (\<lambda>j. Fin (shape_dist A B metric i j)) [0..<n])" if "i < n" for i
    using that assms by (intro emap_Inr shape_dist_finite) (simp_all add: n_def)
  have dist: "emap (\<lambda>i. emap (\<lambda>j. hist_distance A B metric i i j j) [0..<n]) [0..<n] = Inr D"
    unfolding D_def by (rule emap_Inr) (simp add: row)
  have Dij: "D ! i ! j = Fin (shape_dist A B metric i j)" if "i < n" "j < n" for i j
    using that by (simp add: D_def)
  have ne: "permutations [0..<n] \<noteq> []"
    using upt_in_permutations [of n] by auto
  have "foldl (\<lambda>ms p. dict_set ms (permutation_distance D p) p) [] (permutations [0..<n]) =
      foldl (\<lambda>ms p. dict_set ms (Fin (matching_cost A B metric p)) p) [] (permutations [0..<n])"
    using permutation_distance_finite [of n D A B metric, OF Dij]
    by (intro foldl_cong) simp_all
  moreover from dict_min_last [OF ne, of "matching_cost A B metric" "\<lambda>p. p"]
  obtain pre best post where
    e: "py_min_entry (foldl (\<lambda>ms p. dict_set ms (Fin (matching_cost A B metric p)) p) []
          (permutations [0..<n])) = Inr (Fin (matching_cost A B metric best), best)"
    and split: "permutations [0..<n] = pre @ best # post"
    and least: "\<forall>p\<in>set (permutations [0..<n]).
         matching_cost A B metric best \<le> matching_cost A B metric p"
    and last: "\<forall>p\<in>set post. matching_cost A B metric p \<noteq> matching_cost A B metric best"
    by blast
  ultimately have "optimal_shape_matching A B metric =
      Inr (Fin (matching_cost A B metric best), matching_of n best)"
    using assms(1) dist
    by (simp add: optimal_shape_matching_def n_def [symmetric] matching_of_list matching_of_def)
  with split least last show ?thesis unfolding n_def by blast
qed

lemma example_shape_distances:
  "hist_distance example_A example_B ''L1'' 0 0 0 0 = Inr (Fin 0)"
  "hist_distance example_A example_B ''L1'' 0 0 1 1 = Inr (Fin 0)"
  "hist_distance example_A example_B ''L1'' 1 1 0 0 = Inr (Fin 2)"
  "hist_distance example_A example_B ''L1'' 1 1 1 1 = Inr (Fin 2)"
  by code_simp+

lemma example_N: "N example_A = 2" "N example_B = 2"
  by code_simp+

lemma example_finite: "finite_shape_distances example_A example_B ''L1''"
proof -
  have "\<exists>r. hist_distance example_A example_B ''L1'' i i j j = Inr (Fin r)"
    if "i < 2" "j < 2" for i j
  proof -
    from that have "i = 0 \<or> i = 1" "j = 0 \<or> j = 1" by auto
    then show ?thesis using example_shape_distances by auto
  qed
  then show ?thesis by (simp add: finite_shape_distances_def example_N)
qed




section \<open>Symmetry of the distances\<close>

lemma fl_add_commute: "fl_add x y = fl_add y x"
  by (cases x; cases y) simp_all

lemma fl_min_commute: "fl_min x y = fl_min y x"
  by (cases x; cases y) (simp_all add: min.commute)

lemma fl_max_commute: "fl_max x y = fl_max y x"
  by (cases x; cases y) (simp_all add: max.commute)

lemma fl_abs_sub_commute: "fl_abs (fl_sub x y) = fl_abs (fl_sub y x)"
  by (cases x; cases y) (simp_all add: fl_sub_def)

lemma fl_square_sub_commute:
  "fl_mul (fl_sub x y) (fl_sub x y) = fl_mul (fl_sub y x) (fl_sub y x)"
proof (cases x; cases y)
  fix a b assume "x = Fin a" "y = Fin b"
  moreover have "(a - b) * (a - b) = (b - a) * (b - a)" by (simp add: algebra_simps)
  ultimately show ?thesis by simp
qed (simp_all add: fl_sub_def)

lemma map2_commute: "map2 f a b = map2 (\<lambda>x y. f y x) b a"
proof (induction a arbitrary: b)
  case Nil
  show ?case by simp
next
  case (Cons x xs)
  then show ?case by (cases b) simp_all
qed

lemma metric_value_sym: "metric_value m a b = metric_value m b a"
proof -
  have 1: "np_abs (np_sub a b) = np_abs (np_sub b a)"
    unfolding np_abs_def np_sub_def
    by (subst map2_commute) (simp add: fl_abs_sub_commute comp_def split_def)
  have 2: "np_square (np_sub a b) = np_square (np_sub b a)"
    unfolding np_square_def np_sub_def
    by (subst map2_commute) (simp add: fl_square_sub_commute comp_def split_def)
  have 3: "np_add a b = np_add b a"
    unfolding np_add_def by (subst map2_commute) (simp add: fl_add_commute)
  have 4: "np_minimum a b = np_minimum b a"
    unfolding np_minimum_def by (subst map2_commute) (simp add: fl_min_commute)
  have 5: "np_maximum a b = np_maximum b a"
    unfolding np_maximum_def by (subst map2_commute) (simp add: fl_max_commute)
  show ?thesis
    unfolding metric_value_def np_linalg_norm_def 1 2 3 4 5 by (rule refl)
qed

lemma hdist_distance_sym: "hdist_distance a b m nrm = hdist_distance b a m nrm"
proof (cases "bad_inputs a b")
  case True
  then have "bad_inputs b a" by (auto simp add: bad_inputs_def)
  with True show ?thesis by (simp add: hdist_distance_bad)
next
  case False
  then have ne: "elems a \<noteq> []" "elems b \<noteq> []"
    by (auto simp add: bad_inputs_def asize_def)
  obtain a' where a': "hdist_normalized (elems a) = Inr a'"
    using hdist_normalized_ok [OF ne(1)] by blast
  obtain b' where b': "hdist_normalized (elems b) = Inr b'"
    using hdist_normalized_ok [OF ne(2)] by blast
  from False have "hdist_distance a b m nrm =
      (if nrm then metric_value m a' b' else metric_value m (elems a) (elems b))"
    by (simp add: hdist_distance_def bad_inputs_def a' b')
  moreover from False have "hdist_distance b a m nrm =
      (if nrm then metric_value m b' a' else metric_value m (elems b) (elems a))"
    by (auto simp add: hdist_distance_def bad_inputs_def a' b')
  ultimately show ?thesis by (simp add: metric_value_sym [of m a' b'] metric_value_sym [of m "elems a"])
qed

lemma FHD_getitem_cases:
  "FHD_getitem A i j = Inl IndexError \<or> (\<exists>a. FHD_getitem A i j = Inr a)"
  by (simp add: FHD_getitem_def)

lemma hist_distance_sym:
  "hist_distance B A metric k l i j = hist_distance A B metric i j k l"
  using FHD_getitem_cases [of A i j] FHD_getitem_cases [of B k l]
  by (auto simp add: hist_distance_def hdist_distance_sym)

lemma shape_dist_sym: "shape_dist B A metric j i = shape_dist A B metric i j"
  by (simp add: shape_dist_def hist_distance_sym)

lemma finite_shape_distances_sym:
  "finite_shape_distances A B metric \<Longrightarrow> finite_shape_distances B A metric"
  unfolding finite_shape_distances_def by (simp add: hist_distance_sym [of A B])

section \<open>The greedy matching\<close>

lemma greedy_step_finite:
  assumes d: "\<And>j. j \<in> set choices \<Longrightarrow> hist_distance A B metric i i j j = Inr (Fin (d j))"
    and ne: "choices \<noteq> []"
  shows "\<exists>jmin\<in>set choices.
           greedy_step A B metric i (dst, m, choices) =
             Inr (fl_add dst (Fin (d jmin)), m(i \<mapsto> jmin), remove1 jmin choices) \<and>
           (\<forall>j\<in>set choices. d jmin \<le> d j)"
proof -
  have inner: "for_loop choices (\<lambda>j dists.
        ebind (hist_distance A B metric i i j j) (\<lambda>d. Inr (dict_set dists d j))) [] =
      Inr (foldl (\<lambda>dists j. dict_set dists (Fin (d j)) j) [] choices)"
    by (rule for_loop_pure) (simp add: d)
  from dict_min_last [OF ne, of d "\<lambda>j. j"] obtain pre x post where
    e: "py_min_entry (foldl (\<lambda>dists j. dict_set dists (Fin (d j)) j) [] choices) = Inr (Fin (d x), x)"
    and split: "choices = pre @ x # post" and least: "\<forall>y\<in>set choices. d x \<le> d y"
    by blast
  from split have "x \<in> set choices" by simp
  moreover have "greedy_step A B metric i (dst, m, choices) =
      Inr (fl_add dst (Fin (d x)), m(i \<mapsto> x), remove1 x choices)"
    by (simp add: greedy_step_def inner e)
  ultimately show ?thesis using least by blast
qed

lemma greedy_inv_step:
  assumes inv: "greedy_inv d n k f (dst, m, ch)" and k: "k < n"
    and step: "jmin \<in> set ch" "\<forall>j\<in>set ch. d k jmin \<le> d k j"
  shows "greedy_inv d n (Suc k) (f(k := jmin))
           (fl_add dst (Fin (d k jmin)), m(k \<mapsto> jmin), remove1 jmin ch)"
proof -
  let ?f = "f(k := jmin)"
  from inv have dst: "dst = Fin (\<Sum>i<k. d i (f i))" and m: "\<forall>i<k. m i = Some (f i)"
    and inj: "inj_on f {..<k}" and sub: "f ` {..<k} \<subseteq> {0..<n}"
    and ch: "set ch = {0..<n} - f ` {..<k}" and dis: "distinct ch"
    and gr: "\<forall>i<k. \<forall>j<n. j \<notin> f ` {..<i} \<longrightarrow> d i (f i) \<le> d i j"
    by (simp_all add: greedy_inv_def)
  have same: "?f i = f i" if "i < k" for i using that by simp
  have img: "?f ` {..<i} = f ` {..<i}" if "i \<le> k" for i
    using that by (intro image_cong) auto
  from step(1) ch have jn: "jmin < n" and jnew: "jmin \<notin> f ` {..<k}" by auto
  have "(\<Sum>i<Suc k. d i (?f i)) = (\<Sum>i<k. d i (?f i)) + d k jmin" by simp
  also have "(\<Sum>i<k. d i (?f i)) = (\<Sum>i<k. d i (f i))"
    by (intro sum.cong) auto
  finally have 1: "fl_add dst (Fin (d k jmin)) = Fin (\<Sum>i<Suc k. d i (?f i))"
    by (simp add: dst)
  have 2: "\<forall>i<Suc k. (m(k \<mapsto> jmin)) i = Some (?f i)"
    using m by (auto simp add: less_Suc_eq)
  have "?f ` {..<Suc k} = insert (?f k) (?f ` {..<k})"
    by (simp only: lessThan_Suc image_insert)
  also have "?f k = jmin" by simp
  also have "?f ` {..<k} = f ` {..<k}" by (rule img) simp
  finally have img_Suc: "?f ` {..<Suc k} = insert jmin (f ` {..<k})" .
  have 3: "inj_on ?f {..<Suc k}"
    unfolding lessThan_Suc
    using inj jnew img [of k] by (auto simp add: inj_on_def)
  have 4: "?f ` {..<Suc k} \<subseteq> {0..<n}"
    unfolding img_Suc using sub jn by simp
  have 5: "set (remove1 jmin ch) = {0..<n} - ?f ` {..<Suc k}"
    unfolding img_Suc using dis ch by auto
  have 6: "distinct (remove1 jmin ch)" using dis by simp
  have 7: "d i (?f i) \<le> d i j" if "i < Suc k" "j < n" "j \<notin> ?f ` {..<i}" for i j
  proof (cases "i < k")
    case True
    with that img [of i] have "j \<notin> f ` {..<i}" by simp
    with gr True that(2) have "d i (f i) \<le> d i j" by blast
    with True show ?thesis by simp
  next
    case False
    with that(1) have ik: "i = k" by simp
    with that(3) img [of k] have "j \<notin> f ` {..<k}" by simp
    with that(2) ch have "j \<in> set ch" by simp
    with step(2) ik show ?thesis by simp
  qed
  from 1 2 3 4 5 6 7 show ?thesis by (simp add: greedy_inv_def)
qed

lemma greedy_inv_nonempty:
  assumes "greedy_inv d n k f (dst, m, ch)" and "k < n"
  shows "ch \<noteq> []"
proof
  assume "ch = []"
  with assms(1) have sub: "{0..<n} \<subseteq> f ` {..<k}" and inj: "inj_on f {..<k}"
    by (auto simp add: greedy_inv_def)
  from sub have "card {0..<n} \<le> card (f ` {..<k})" by (intro card_mono) simp_all
  also from inj have "card (f ` {..<k}) = k" by (simp add: card_image)
  finally show False using assms(2) by simp
qed


lemma greedy_finite:
  assumes "N A = N B" and "finite_shape_distances A B metric"
  shows "\<exists>f dst m ch. greedy_shape_matching A B metric = Inr (dst, m) \<and>
           greedy_inv (shape_dist A B metric) (N A) (N A) f (dst, m, ch)"
proof -
  define n where "n = N A"
  define d where "d = shape_dist A B metric"
  let ?P = "\<lambda>pre st. \<exists>f. greedy_inv d n (length pre) f st"
  have "\<exists>st. for_loop [0..<n] (greedy_step A B metric) (Fin 0, Map.empty, [0..<n]) = Inr st \<and>
      ?P [0..<n] st"
  proof (rule for_loop_total [where P = ?P])
    show "?P [] (Fin 0, Map.empty, [0..<n])"
      by (simp add: greedy_inv_def)
  next
    fix pre x post s
    assume split: "[0..<n] = pre @ x # post" and P: "?P pre s"
    from upt_split [OF split] have pre: "pre = [0..<x]" and x: "x < n" by simp_all
    from pre have len: "length pre = x" by simp
    obtain dst m ch where s: "s = (dst, m, ch)" by (cases s) auto
    from P len s obtain f where inv: "greedy_inv d n x f (dst, m, ch)" by auto
    from greedy_inv_nonempty [OF inv x] have ne: "ch \<noteq> []" .
    have "hist_distance A B metric x x j j = Inr (Fin (d x j))" if "j \<in> set ch" for j
    proof -
      from inv that have "j < n" by (auto simp add: greedy_inv_def)
      with x assms show ?thesis unfolding d_def n_def by (intro shape_dist_finite) simp_all
    qed
    from greedy_step_finite [of ch A B metric x "d x", OF this ne, of dst m]
    obtain jmin where j: "jmin \<in> set ch"
      and t: "greedy_step A B metric x (dst, m, ch) =
        Inr (fl_add dst (Fin (d x jmin)), m(x \<mapsto> jmin), remove1 jmin ch)"
      and least: "\<forall>j\<in>set ch. d x jmin \<le> d x j" by blast
    from greedy_inv_step [OF inv x j least]
    have "?P (pre @ [x]) (fl_add dst (Fin (d x jmin)), m(x \<mapsto> jmin), remove1 jmin ch)"
      using len by auto
    with t s show "\<exists>t. greedy_step A B metric x s = Inr t \<and> ?P (pre @ [x]) t" by blast
  qed
  then obtain st f where loop:
    "for_loop [0..<n] (greedy_step A B metric) (Fin 0, Map.empty, [0..<n]) = Inr st"
    and inv: "greedy_inv d n n f st" by auto
  obtain dst m ch where st: "st = (dst, m, ch)" by (cases st) auto
  from loop st assms(1) have "greedy_shape_matching A B metric = Inr (dst, m)"
    by (simp add: greedy_shape_matching_def n_def)
  with inv st show ?thesis unfolding n_def d_def by blast
qed

lemma matching_cost_map:
  "matching_cost A B metric (map f [0..<n]) = (\<Sum>i<n. shape_dist A B metric i (f i))"
proof (induction n)
  case 0
  show ?case by (simp add: matching_cost_def)
next
  case (Suc n)
  have "matching_cost A B metric (map f [0..<Suc n]) =
      matching_cost A B metric (map f [0..<n] @ [f n])" by simp
  also have "\<dots> = matching_cost A B metric (map f [0..<n]) + shape_dist A B metric n (f n)"
    by (simp only: matching_cost_snoc length_map length_upt diff_zero)
  finally show ?case using Suc by simp
qed

lemma map_in_permutations:
  assumes "inj_on f {..<n}" "f ` {..<n} \<subseteq> {0..<n}"
  shows "map f [0..<n] \<in> set (permutations [0..<n])"
proof -
  have "distinct (map f [0..<n])"
    using assms(1) by (simp add: distinct_map atLeast0LessThan)
  moreover have "set (map f [0..<n]) \<subseteq> {0..<n}"
    using assms(2) by (simp add: atLeast0LessThan)
  ultimately show ?thesis by (simp add: permutations_upt)
qed


lemma inj_bij_lessThan:
  assumes "inj_on f {..<n}" "f ` {..<n} \<subseteq> {0..<(n::nat)}"
  shows "bij_betw f {..<n} {..<n}"
proof -
  have "card (f ` {..<n}) = card {..<n}" using assms(1) by (simp add: card_image)
  moreover have "f ` {..<n} \<subseteq> {..<n}" using assms(2) by (simp add: atLeast0LessThan)
  ultimately have "f ` {..<n} = {..<n}" by (intro card_subset_eq) simp_all
  with assms(1) show ?thesis by (simp add: bij_betw_def)
qed

lemma greedy_cost_bound:
  assumes inv: "greedy_inv (shape_dist A B metric) n n f (dst, m, ch)"
    and opt: "\<forall>p\<in>set (permutations [0..<n]). c \<le> matching_cost A B metric p"
  shows "\<exists>s. dst = Fin s \<and> c \<le> s"
proof -
  from inv have dst: "dst = Fin (\<Sum>i<n. shape_dist A B metric i (f i))"
    and inj: "inj_on f {..<n}" and sub: "f ` {..<n} \<subseteq> {0..<n}"
    by (simp_all add: greedy_inv_def)
  from map_in_permutations [OF inj sub] opt
  have "c \<le> matching_cost A B metric (map f [0..<n])" by blast
  with dst show ?thesis by (simp add: matching_cost_map)
qed

lemma greedy_cost_bound_reversed:
  assumes inv: "greedy_inv (shape_dist B A metric) n n f (dst, m, ch)"
    and opt: "\<forall>p\<in>set (permutations [0..<n]). c \<le> matching_cost A B metric p"
  shows "\<exists>s. dst = Fin s \<and> c \<le> s"
proof -
  from inv have dst: "dst = Fin (\<Sum>i<n. shape_dist B A metric i (f i))"
    and inj: "inj_on f {..<n}" and sub: "f ` {..<n} \<subseteq> {0..<n}"
    by (simp_all add: greedy_inv_def)
  from inj_bij_lessThan [OF inj sub] have bij: "bij_betw f {..<n} {..<n}" .
  define g where "g = inv_into {..<n} f"
  have gf: "g (f i) = i" if "i < n" for i
    using that inj by (simp add: g_def)
  from bij have bij_g: "bij_betw g {..<n} {..<n}"
    unfolding g_def by (rule bij_betw_inv_into)
  then have g_inj: "inj_on g {..<n}" and g_sub: "g ` {..<n} \<subseteq> {0..<n}"
    by (auto simp add: bij_betw_def)
  have "(\<Sum>i<n. shape_dist B A metric i (f i)) = (\<Sum>i<n. shape_dist A B metric (f i) (g (f i)))"
    by (intro sum.cong) (simp_all add: gf shape_dist_sym [of B A])
  also have "\<dots> = (\<Sum>j<n. shape_dist A B metric j (g j))"
    by (rule sum.reindex_bij_betw [OF bij, of "\<lambda>j. shape_dist A B metric j (g j)"])
  also have "\<dots> = matching_cost A B metric (map g [0..<n])"
    by (simp add: matching_cost_map)
  finally have "(\<Sum>i<n. shape_dist B A metric i (f i)) = matching_cost A B metric (map g [0..<n])" .
  moreover from map_in_permutations [OF g_inj g_sub] opt
  have "c \<le> matching_cost A B metric (map g [0..<n])" by blast
  ultimately show ?thesis using dst by simp
qed

lemma optimal_le_greedy_aux:
  assumes "N A = N B" and "finite_shape_distances A B metric"
  shows "\<exists>dopt mopt dg mg.
           optimal_shape_matching A B metric = Inr (Fin dopt, mopt) \<and>
           greedy_retained A B metric = Inr (Fin dg, mg) \<and> dopt \<le> dg"
proof -
  from optimal_finite [OF assms] obtain best where
    opt: "optimal_shape_matching A B metric =
        Inr (Fin (matching_cost A B metric best), matching_of (N A) best)"
    and least: "\<forall>p\<in>set (permutations [0..<N A]).
        matching_cost A B metric best \<le> matching_cost A B metric p" by blast
  from greedy_finite [OF assms] obtain f dab mab cab where
    ab: "greedy_shape_matching A B metric = Inr (dab, mab)"
    and inv_ab: "greedy_inv (shape_dist A B metric) (N A) (N A) f (dab, mab, cab)" by blast
  from greedy_finite [OF assms(1) [symmetric] finite_shape_distances_sym [OF assms(2)]]
  obtain f' dba mba cba where
    ba: "greedy_shape_matching B A metric = Inr (dba, mba)"
    and inv_ba: "greedy_inv (shape_dist B A metric) (N A) (N A) f' (dba, mba, cba)"
    using assms(1) by auto
  from greedy_cost_bound [OF inv_ab least] obtain sab where
    sab: "dab = Fin sab" "matching_cost A B metric best \<le> sab" by blast
  from greedy_cost_bound_reversed [OF inv_ba least] obtain sba where
    sba: "dba = Fin sba" "matching_cost A B metric best \<le> sba" by blast
  have "greedy_retained A B metric =
      Inr (if sab \<le> sba then (Fin sab, mab) else (Fin sba, mba))"
    by (auto simp add: greedy_retained_def ab ba sab(1) sba(1))
  with opt sab(2) sba(2) show ?thesis by (cases "sab \<le> sba") auto
qed




section \<open>Finite and non-negative distances\<close>

lemma chi2_term_nonneg: "0 \<le> x \<Longrightarrow> 0 \<le> y \<Longrightarrow> 0 \<le> chi2_term x y"
  by (simp add: chi2_term_def)

lemma sum_list_map2_nonneg:
  "(\<And>x y. (x, y) \<in> set (zip a b) \<Longrightarrow> 0 \<le> f x y) \<Longrightarrow> (0::real) \<le> sum_list (map2 f a b)"
  by (rule sum_list_nonneg) auto

lemma sum_list_map2_mono:
  "(\<And>x y. (x, y) \<in> set (zip a b) \<Longrightarrow> f x y \<le> g x y) \<Longrightarrow>
   sum_list (map2 f a b) \<le> (sum_list (map2 g a b) :: real)"
  by (rule sum_list_mono) auto

lemma sum_list_map2_fst: "length a = length b \<Longrightarrow> sum_list (map2 (\<lambda>x y. x) a b) = sum_list a"
proof -
  assume "length a = length b"
  then have "map fst (zip a b) = a" by (rule map_fst_zip)
  then have "map2 (\<lambda>x y. x) a b = a" by (simp add: split_def fst_def [symmetric])
  then show ?thesis by simp
qed

lemma metric_value_nonneg:
  assumes len: "length a = length b" and a: "\<forall>x\<in>set a. 0 \<le> x" and b: "\<forall>x\<in>set b. 0 \<le> x"
    and pos: "0 < sum_list a" and m: "metric \<in> set implemented_metrics"
  shows "\<exists>r\<ge>0. metric_value metric (map Fin a) (map Fin b) = Inr (Fin r)"
proof -
  have nn: "0 \<le> x \<and> 0 \<le> y" if "(x, y) \<in> set (zip a b)" for x y
    using that a b by (auto dest: set_zip_leftD set_zip_rightD)
  have L1: "\<exists>r\<ge>0. metric_value ''L1'' (map Fin a) (map Fin b) = Inr (Fin r)"
    unfolding metric_value_L1_Fin by (simp add: sum_list_map2_nonneg)
  have L2: "\<exists>r\<ge>0. metric_value ''L2'' (map Fin a) (map Fin b) = Inr (Fin r)"
    unfolding metric_value_L2_Fin by (simp add: sum_list_map2_nonneg)
  have "\<not> (\<exists>(x, y)\<in>set (zip a b). x + y = 0 \<and> x \<noteq> y)"
    using nn by fastforce
  moreover have "0 \<le> chi2_sum a b"
    unfolding chi2_sum_def using nn by (intro sum_list_map2_nonneg chi2_term_nonneg) auto
  ultimately have C: "\<exists>r\<ge>0. metric_value ''CHI2'' (map Fin a) (map Fin b) = Inr (Fin r)"
    using len by (simp add: chi2_value)
  have "sum_list (map2 (\<lambda>x y. x) a b) \<le> sum_list (map2 max a b)"
    by (rule sum_list_map2_mono) simp
  with len pos have mx: "0 < sum_list (map2 max a b)" by (simp add: sum_list_map2_fst)
  have "sum_list (map2 min a b) \<le> sum_list (map2 max a b)"
    by (rule sum_list_map2_mono) simp
  with mx have "sum_list (map2 min a b) / sum_list (map2 max a b) \<le> 1" by simp
  with mx have J: "\<exists>r\<ge>0. metric_value ''jaccard'' (map Fin a) (map Fin b) = Inr (Fin r)"
    by (simp add: metric_value_jaccard_Fin)
  from m L1 L2 C J show ?thesis
    by (auto simp add: implemented_metrics_def metric_value_alias)
qed

lemma hdist_regular:
  assumes "varied a" "varied b" "length a = length b" "metric \<in> set implemented_metrics"
  shows "\<exists>r\<ge>0. hdist_distance (vec (map Fin a)) (vec (map Fin b)) metric True = Inr (Fin r)"
proof -
  from assms(1,2) have ne: "a \<noteq> []" "b \<noteq> []" by (simp_all add: varied_Min_Max)
  have "hdist_distance (vec (map Fin a)) (vec (map Fin b)) metric True =
      metric_value metric (map Fin (minmax a)) (map Fin (minmax b))"
    using ne assms(1,2,3) by (simp add: hdist_distance_def hdist_normalized_Fin)
  moreover have "\<exists>r\<ge>0. metric_value metric (map Fin (minmax a)) (map Fin (minmax b)) = Inr (Fin r)"
    using assms minmax_range minmax_sum_pos [OF assms(1)]
    by (intro metric_value_nonneg) auto
  ultimately show ?thesis by simp
qed

section \<open>A descriptor compared with itself\<close>

lemma regular_self:
  assumes "FHD_wf A" "regular_descriptor A" "metric \<in> set implemented_metrics"
    and "i \<le> j" "j < N A"
  shows "hist_distance A A metric i j i j = Inr (Fin 0)"
proof -
  from assms(4,5) have i: "i < N A" by simp
  from assms(2) i assms(4,5) obtain r where r: "cell A i j = map Fin r" "varied r"
    unfolding regular_descriptor_def by blast
  from assms(1) i assms(5) have "hist_distance A A metric i j i j =
      hdist_distance (vec (cell A i j)) (vec (cell A i j)) metric True"
    by (simp add: hist_distance_wf)
  with r assms(3) show ?thesis by (simp add: hdist_self_zero)
qed

lemma regular_shape:
  assumes "FHD_wf A" "regular_descriptor A" "metric \<in> set implemented_metrics"
    and "i < N A" "j < N A"
  shows "\<exists>r\<ge>0. hist_distance A A metric i i j j = Inr (Fin r)"
proof -
  from assms(2,4) obtain a where a: "cell A i i = map Fin a" "varied a"
    unfolding regular_descriptor_def by blast
  from assms(2,5) obtain b where b: "cell A j j = map Fin b" "varied b"
    unfolding regular_descriptor_def by blast
  from assms(1,4) have "length (cell A i i) = num_dirs A" by (simp add: cell_length)
  moreover from assms(1,5) have "length (cell A j j) = num_dirs A" by (simp add: cell_length)
  ultimately have len: "length a = length b" using a(1) b(1) by simp
  from assms(1,4,5) have "hist_distance A A metric i i j j =
      hdist_distance (vec (cell A i i)) (vec (cell A j j)) metric True"
    by (simp add: hist_distance_wf)
  with hdist_regular [OF a(2) b(2) len assms(3)] a(1) b(1) show ?thesis by simp
qed

lemma regular_finite:
  assumes "FHD_wf A" "regular_descriptor A" "metric \<in> set implemented_metrics"
  shows "finite_shape_distances A A metric"
  unfolding finite_shape_distances_def using regular_shape [OF assms] by blast

lemma regular_shape_dist:
  assumes "FHD_wf A" "regular_descriptor A" "metric \<in> set implemented_metrics"
    and "i < N A" "j < N A"
  shows "0 \<le> shape_dist A A metric i j"
    and "shape_dist A A metric i i = 0"
    and "distinct_shapes A metric \<Longrightarrow> i \<noteq> j \<Longrightarrow> 0 < shape_dist A A metric i j"
proof -
  from regular_shape [OF assms] obtain r where r: "0 \<le> r"
    "hist_distance A A metric i i j j = Inr (Fin r)" by blast
  then have sd: "shape_dist A A metric i j = r" by (simp add: shape_dist_def)
  with r show "0 \<le> shape_dist A A metric i j" by simp
  from regular_self [OF assms(1,2,3), of i i] assms(4)
  show "shape_dist A A metric i i = 0" by (simp add: shape_dist_def)
  assume "distinct_shapes A metric" "i \<noteq> j"
  with assms(4,5) have "hist_distance A A metric i i j j \<noteq> Inr (Fin 0)"
    unfolding distinct_shapes_def by blast
  with r sd show "0 < shape_dist A A metric i j" by (cases "r = 0") auto
qed

lemma foldl_fl_add_zeros: "foldl fl_add (Fin 0) (map (\<lambda>x. Fin 0) xs) = Fin 0"
  using np_sum_zeros [of xs] by (simp add: np_sum_def)

lemma default_self:
  assumes "FHD_wf A" "regular_descriptor A" "metric \<in> set implemented_metrics"
  shows "default_distances A A metric (N A) = Inr (Fin 0, Fin 0)"
proof -
  let ?body = "\<lambda>i (shape_distance, spatial_distance).
       ebind (hist_distance A A metric i i i i) (\<lambda>d.
       ebind (for_loop [i + 1..<N A] (\<lambda>j sp.
                ebind (hist_distance A A metric i j i j) (\<lambda>d'. Inr (fl_add sp d')))
              spatial_distance) (\<lambda>sp.
         Inr (fl_add shape_distance d, sp)))"
  have inner: "for_loop [i + 1..<N A] (\<lambda>j sp.
        ebind (hist_distance A A metric i j i j) (\<lambda>d'. Inr (fl_add sp d'))) (Fin 0) = Inr (Fin 0)"
    for i
  proof -
    have "emap (\<lambda>j. hist_distance A A metric i j i j) [i + 1..<N A] =
        Inr (map (\<lambda>j. Fin 0) [i + 1..<N A])"
      using assms by (intro emap_Inr regular_self) simp_all
    then show ?thesis by (simp add: for_loop_sum foldl_fl_add_zeros)
  qed
  have "\<exists>s'. for_loop [0..<N A] ?body (Fin 0, Fin 0) = Inr s' \<and> s' = (Fin 0, Fin 0)"
  proof (rule for_loop_total [where P = "\<lambda>pre s. s = (Fin 0, Fin 0)"])
    show "(Fin 0, Fin 0) = (Fin 0, Fin 0)" by simp
  next
    fix pre x post s
    assume split: "[0..<N A] = pre @ x # post" and s: "s = (Fin 0 :: float64, Fin 0 :: float64)"
    from upt_split [OF split] have x: "x < N A" by simp
    from regular_self [OF assms, of x x] x
    have "hist_distance A A metric x x x x = Inr (Fin 0)" by simp
    with s inner [of x] show "\<exists>t. ?body x s = Inr t \<and> t = (Fin 0, Fin 0)" by simp
  qed
  then show ?thesis by (simp add: default_distances_def)
qed

lemma spatial_self:
  assumes "FHD_wf A" "regular_descriptor A" "metric \<in> set implemented_metrics"
    and m: "\<And>i. i < N A \<Longrightarrow> m i = Some i"
  shows "matched_spatial_distance A A metric m (N A) = Inr (Fin 0)"
proof -
  have "matched_spatial_distance A A metric m (N A) =
      ebind (emap (spatial_term A A metric (\<lambda>i. i)) (index_pairs (N A))) (\<lambda>ts. Inr (np_sum ts))"
    using assms(1) m by (intro matched_spatial_distance_terms) simp_all
  moreover have "emap (spatial_term A A metric (\<lambda>i. i)) (index_pairs (N A)) =
      Inr (map (\<lambda>ij. Fin 0) (index_pairs (N A)))"
  proof (rule emap_Inr)
    fix ij assume "ij \<in> set (index_pairs (N A))"
    moreover obtain i j where "ij = (i, j)" by (cases ij) auto
    ultimately have ij: "ij = (i, j)" "i < j" "j < N A"
      by (simp_all add: set_index_pairs)
    then have "spatial_term A A metric (\<lambda>i. i) ij =
        hdist_distance (vec (cell A i j)) (vec (cell A i j)) metric True"
      by (simp add: spatial_term_def)
    also from ij assms(1) have "\<dots> = hist_distance A A metric i j i j"
      by (simp add: hist_distance_wf)
    also from ij have "\<dots> = Inr (Fin 0)"
      by (intro regular_self assms) simp_all
    finally show "spatial_term A A metric (\<lambda>i. i) ij = Inr (Fin 0)" .
  qed
  ultimately show ?thesis by (simp add: np_sum_zeros)
qed


lemma greedy_self_identity:
  assumes "FHD_wf A" "regular_descriptor A" "metric \<in> set implemented_metrics"
    and "distinct_shapes A metric"
  shows "\<exists>m. greedy_shape_matching A A metric = Inr (Fin 0, m) \<and> (\<forall>i<N A. m i = Some i)"
proof -
  let ?d = "shape_dist A A metric"
  from greedy_finite [OF refl regular_finite [OF assms(1,2,3)]] obtain f dst m ch where
    g: "greedy_shape_matching A A metric = Inr (dst, m)"
    and inv: "greedy_inv ?d (N A) (N A) f (dst, m, ch)" by blast
  from inv have dst: "dst = Fin (\<Sum>i<N A. ?d i (f i))" and m: "\<forall>i<N A. m i = Some (f i)"
    and sub: "f ` {..<N A} \<subseteq> {0..<N A}"
    and gr: "\<forall>i<N A. \<forall>j<N A. j \<notin> f ` {..<i} \<longrightarrow> ?d i (f i) \<le> ?d i j"
    by (simp_all add: greedy_inv_def)
  have id: "i < N A \<Longrightarrow> f i = i" for i
  proof (induction i rule: less_induct)
    case (less i)
    have "f ` {..<i} = {..<i}"
    proof -
      have "f k = k" if "k \<in> {..<i}" for k
        using that less by simp
      then show ?thesis by (simp add: image_def)
    qed
    then have "i \<notin> f ` {..<i}" by simp
    with gr less.prems have "?d i (f i) \<le> ?d i i" by blast
    also have "?d i i = 0" using regular_shape_dist(2) [OF assms(1,2,3) less.prems less.prems] .
    finally have le: "?d i (f i) \<le> 0" .
    from sub less.prems have fi: "f i < N A" by auto
    show ?case
    proof (rule ccontr)
      assume "f i \<noteq> i"
      then have "i \<noteq> f i" by simp
      from regular_shape_dist(3) [OF assms(1,2,3) less.prems fi assms(4) this] le
      show False by simp
    qed
  qed
  have "(\<Sum>i<N A. ?d i (f i)) = (\<Sum>i<N A. 0)"
    by (intro sum.cong) (simp_all add: id regular_shape_dist(2) [OF assms(1,2,3)])
  with dst have "dst = Fin 0" by simp
  with g m id show ?thesis by auto
qed

lemma optimal_self_identity:
  assumes "FHD_wf A" "regular_descriptor A" "metric \<in> set implemented_metrics"
    and "distinct_shapes A metric"
  shows "\<exists>m. optimal_shape_matching A A metric = Inr (Fin 0, m) \<and> (\<forall>i<N A. m i = Some i)"
proof -
  let ?d = "shape_dist A A metric"
  let ?c = "matching_cost A A metric"
  from optimal_finite [OF refl regular_finite [OF assms(1,2,3)]] obtain pre best post where
    opt: "optimal_shape_matching A A metric = Inr (Fin (?c best), matching_of (N A) best)"
    and split: "permutations [0..<N A] = pre @ best # post"
    and least: "\<forall>p\<in>set (permutations [0..<N A]). ?c best \<le> ?c p" by blast
  from split have mem: "best \<in> set (permutations [0..<N A])" by simp
  then have len: "length best = N A" by (simp add: permutations_upt)
  have "?c [0..<N A] = ?c (map (\<lambda>i. i) [0..<N A])" by simp
  also have "\<dots> = (\<Sum>i<N A. ?d i i)" by (rule matching_cost_map)
  also have "\<dots> = (\<Sum>i<N A. 0)"
    by (intro sum.cong) (simp_all add: regular_shape_dist(2) [OF assms(1,2,3)])
  finally have "?c [0..<N A] = 0" by simp
  with least upt_in_permutations [of "N A"] have le: "?c best \<le> 0" by force
  have "map (\<lambda>i. best ! i) [0..<length best] = best" by (rule map_nth)
  with len have "best = map (\<lambda>i. best ! i) [0..<N A]" by simp
  then have "?c best = ?c (map (\<lambda>i. best ! i) [0..<N A])" by simp
  also have "\<dots> = (\<Sum>i<N A. ?d i (best ! i))" by (rule matching_cost_map)
  finally have cost: "?c best = (\<Sum>i<N A. ?d i (best ! i))" .
  have nn: "0 \<le> ?d i (best ! i)" if "i < N A" for i
    using that mem by (intro regular_shape_dist(1) [OF assms(1,2,3)] permutation_nth_range)
  then have "0 \<le> (\<Sum>i<N A. ?d i (best ! i))" by (intro sum_nonneg) simp
  with le cost have zero: "(\<Sum>i<N A. ?d i (best ! i)) = 0" by simp
  then have each: "?d i (best ! i) = 0" if "i < N A" for i
    using that nn by (subst (asm) sum_nonneg_eq_0_iff) simp_all
  have id: "best ! i = i" if "i < N A" for i
  proof (rule ccontr)
    assume "best ! i \<noteq> i"
    then have ne: "i \<noteq> best ! i" by simp
    from mem that have "best ! i < N A" by (rule permutation_nth_range)
    from regular_shape_dist(3) [OF assms(1,2,3) that this assms(4) ne] each [OF that]
    show False by simp
  qed
  from cost zero have "?c best = 0" by simp
  with opt id show ?thesis by (auto simp add: matching_of_def)
qed

lemma fhd_self_zero:
  assumes "FHD_wf A" and "regular_descriptor A" and "metric \<in> set implemented_metrics"
    and "alpha = None \<or> (\<exists>a. alpha = Some (Fin a) \<and> 0 \<le> a \<and> a \<le> 1)"
    and "matching = ''default'' \<or>
         (matching = ''greedy'' \<or> matching = ''optimal'') \<and> distinct_shapes A metric"
  shows "fhd_distance A A metric matching alpha = Inr (Fin 0)"
proof -
  have strat: "strategy_distances A A metric matching = Inr (Fin 0, Fin 0)"
    using assms(5)
  proof (elim disjE conjE)
    assume "matching = ''default''"
    then show ?thesis by (simp add: strategy_distances_def default_self [OF assms(1,2,3)])
  next
    assume d: "distinct_shapes A metric" and "matching = ''greedy''"
    from greedy_self_identity [OF assms(1,2,3) d] obtain m where
      m: "greedy_shape_matching A A metric = Inr (Fin 0, m)" "\<forall>i<N A. m i = Some i" by blast
    then have "greedy_retained A A metric = Inr (Fin 0, m)"
      by (simp add: greedy_retained_def)
    with m(2) \<open>matching = ''greedy''\<close> show ?thesis
      by (simp add: strategy_distances_def spatial_self [OF assms(1,2,3)])
  next
    assume d: "distinct_shapes A metric" and "matching = ''optimal''"
    from optimal_self_identity [OF assms(1,2,3) d] obtain m where
      m: "optimal_shape_matching A A metric = Inr (Fin 0, m)" "\<forall>i<N A. m i = Some i" by blast
    with \<open>matching = ''optimal''\<close> show ?thesis
      by (simp add: strategy_distances_def spatial_self [OF assms(1,2,3)])
  qed
  have mt: "matching \<in> set matchings"
    using assms(5) by (auto simp add: matchings_def)
  from assms(4) show ?thesis
  proof
    assume "alpha = None"
    with strat mt show ?thesis by (simp add: fhd_distance_def)
  next
    assume "\<exists>a. alpha = Some (Fin a) \<and> 0 \<le> a \<and> a \<le> 1"
    then obtain a where "alpha = Some (Fin a)" "0 \<le> a" "a \<le> 1" by blast
    with strat mt show ?thesis by (auto simp add: fhd_distance_def)
  qed
qed

lemma example_A_regular: "regular_descriptor example_A"
proof -
  have c: "cell example_A 0 0 = map Fin [1, 0, 0, 0]" "cell example_A 0 1 = map Fin [0, 1, 0, 0]"
    "cell example_A 1 1 = map Fin [0, 0, 1, 0]"
    by code_simp+
  have v: "varied [1, 0, 0, 0]" "varied [0, 1, 0, 0]" "varied [0, 0, 1, 0]"
    by code_simp+
  from c v have e: "\<exists>r. cell example_A 0 0 = map Fin r \<and> varied r"
    "\<exists>r. cell example_A 0 1 = map Fin r \<and> varied r"
    "\<exists>r. cell example_A 1 1 = map Fin r \<and> varied r"
    by blast+
  have "\<exists>r. cell example_A i j = map Fin r \<and> varied r" if "i < 2" "j < 2" "i \<le> j" for i j
  proof -
    from that have "i = 0 \<and> j = 0 \<or> i = 0 \<and> j = 1 \<or> i = 1 \<and> j = 1" by auto
    with e show ?thesis by blast
  qed
  then show ?thesis by (simp add: regular_descriptor_def example_N)
qed

lemma example_A_distinct: "distinct_shapes example_A ''L1''"
proof -
  have d: "hist_distance example_A example_A ''L1'' 0 0 1 1 = Inr (Fin 2)"
    "hist_distance example_A example_A ''L1'' 1 1 0 0 = Inr (Fin 2)"
    by code_simp+
  have "hist_distance example_A example_A ''L1'' i i j j \<noteq> Inr (Fin 0)"
    if "i < 2" "j < 2" "i \<noteq> j" for i j
  proof -
    from that have "i = 0 \<and> j = 1 \<or> i = 1 \<and> j = 0" by auto
    with d show ?thesis by auto
  qed
  then show ?thesis by (simp add: distinct_shapes_def example_N)
qed




section \<open>Dump and load\<close>

lemma set_triu_indices: "(i, j) \<in> set (triu_indices n) \<longleftrightarrow> i \<le> j \<and> j < n"
proof
  assume "(i, j) \<in> set (triu_indices n)"
  then show "i \<le> j \<and> j < n" by (auto simp add: triu_indices_def)
next
  assume a: "i \<le> j \<and> j < n"
  then have "i \<in> set [0..<n]" "(i, j) \<in> set (map (Pair i) [i..<n])" by auto
  then show "(i, j) \<in> set (triu_indices n)" unfolding triu_indices_def by auto
qed

lemma triu_indices_Suc_nonempty: "triu_indices (Suc n) \<noteq> []"
proof -
  have "(0, 0) \<in> set (triu_indices (Suc n))" by (simp add: set_triu_indices)
  then show ?thesis by auto
qed

lemma triu_indices_1: "triu_indices 1 = [(0, 0)]"
  by (simp add: triu_indices_def)

lemma assign_triu_map:
  assumes "i \<le> j" "j < n"
  shows "cells (assign_triu n d junk (map f (triu_indices n))) ! i ! j = f (i, j)"
proof -
  from assms have i: "i < n" by simp
  from assms have "(i, j) \<in> set (triu_indices n)" by (simp add: set_triu_indices)
  then have "map_of (zip (triu_indices n) (map f (triu_indices n))) (i, j) = Some (f (i, j))"
    by (simp add: map_of_zip_map)
  with i assms(2) show ?thesis by (simp add: assign_triu_def)
qed

text \<open>
  The round trip where it holds: a descriptor with at least one layer and at least two
  directions is read back from its dump with the same attributes and the same stored
  histograms, whatever the memory of the new array held.
\<close>

lemma dump_load_roundtrip:
  assumes wf: "FHD_wf A" and n: "1 \<le> N A" and d: "2 \<le> num_dirs A"
  shows "\<exists>file X. FHD_dump A = Inr file \<and>
           FHD_load file (N A) (shape_force A) (spatial_force A) junk = Inr X \<and>
           N X = N A \<and> num_dirs X = num_dirs A \<and>
           shape_force X = shape_force A \<and> spatial_force X = spatial_force A \<and>
           (\<forall>i j. i \<le> j \<and> j < N A \<longrightarrow> cell X i j = cell A i j)"
proof -
  define f where "f = (\<lambda>(i, j). cell A i j)"
  define rows where "rows = map f (triu_indices (N A))"
  have dump: "FHD_dump A = Inr rows"
    using wf by (simp add: FHD_dump_def FHD_wf_def rows_def f_def cell_def)
  have len: "length r = num_dirs A" if "r \<in> set rows" for r
  proof -
    from that obtain i j where "(i, j) \<in> set (triu_indices (N A))" "r = cell A i j"
      by (auto simp add: rows_def f_def)
    with wf show ?thesis by (simp add: set_triu_indices cell_length)
  qed
  from n obtain k where k: "N A = Suc k" by (cases "N A") auto
  then have ne: "rows \<noteq> []" by (simp add: rows_def triu_indices_Suc_nonempty)
  from len d have "filter (\<lambda>r. r \<noteq> []) rows = rows"
    by (intro filter_True) force
  moreover from ne have "hd rows \<in> set rows" by simp
  with len have hd: "length (hd rows) = num_dirs A" by blast
  moreover have "list_all (\<lambda>r. length r = length (hd rows)) rows"
    using len hd by (simp add: list_all_iff)
  ultimately have load: "np_loadtxt rows =
      Inr (if length rows = 1 then Arr1 (hd rows) else Arr2 rows)"
    using ne d by (simp add: np_loadtxt_def Let_def)
  have lr: "length rows = length (triu_indices (N A))" by (simp add: rows_def)
  have "\<exists>X. FHD_load rows (N A) (shape_force A) (spatial_force A) junk = Inr X \<and>
      X = FHD_init (assign_triu (N A) (num_dirs A) junk rows) (shape_force A) (spatial_force A)"
  proof (cases "length rows = 1")
    case True
    with ne have "rows = [hd rows]" by (cases rows) auto
    with True lr have "replicate (length (triu_indices (N A))) (hd rows) = rows"
      by (metis One_nat_def replicate_Suc replicate_0)
    with True load hd show ?thesis by (simp add: FHD_load_def)
  next
    case False
    with load hd lr show ?thesis by (simp add: FHD_load_def)
  qed
  then obtain X where X: "FHD_load rows (N A) (shape_force A) (spatial_force A) junk = Inr X"
    "X = FHD_init (assign_triu (N A) (num_dirs A) junk rows) (shape_force A) (spatial_force A)"
    by blast
  have "cell X i j = cell A i j" if "i \<le> j \<and> j < N A" for i j
    using that assign_triu_map [of i j "N A" "num_dirs A" junk f]
    by (simp add: X(2) rows_def cell_def FHD_init_def f_def)
  moreover have "N X = N A" "num_dirs X = num_dirs A" "shape_force X = shape_force A"
    "spatial_force X = spatial_force A"
    by (simp_all add: X(2) FHD_init_def assign_triu_def)
  ultimately show ?thesis using dump X(1) by blast
qed


text \<open>
  Claim C10 at a descriptor with two layers and one direction. \<open>dump\<close> writes three
  lines of one number; \<open>np.loadtxt\<close> squeezes the single column into a vector of three
  numbers; \<open>load\<close> takes its length for \<open>num_dirs\<close> and broadcasts the vector into every
  cell of the upper triangle. The descriptor read back has \<open>num_dirs = 3\<close> instead of 1
  and the histogram \<open>[1, 2, 3]\<close> in every stored cell.
\<close>

theorem dump_load_single_direction:
  "FHD_view (Inr example_D) = Inr (2, 1, [[[Fin 1], [Fin 2]], [[NaN], [Fin 3]]]) \<and>
   FHD_dump example_D = Inr [[Fin 1], [Fin 2], [Fin 3]] \<and>
   FHD_view example_D_reloaded =
     Inr (2, 3, [[[Fin 1, Fin 2, Fin 3], [Fin 1, Fin 2, Fin 3]],
                 [[NaN, NaN, NaN], [Fin 1, Fin 2, Fin 3]]])"
  by code_simp

end
